theory Spec2Isabelle
  imports Complex_Main "HOL-Library.Log_Nat"
begin

section \<open>The Python values that \<open>progress.py\<close> computes with\<close>

text \<open>
  \<open>src/prompt_ops/core/utils/progress.py\<close> works on Python integers (unbounded, modelled
  as \<open>int\<close>), on Python floats (IEEE 754 binary64) and on Python strings (sequences of
  Unicode code points; the two bar glyphs lie outside Latin-1, so a string is a list of
  code points here, not a list of bytes).

  Every operation of the source that can raise is a function into \<open>error + 'a\<close>.
\<close>

datatype error = ZeroDivisionError | OverflowError | ValueError | MemoryError

definition bnd :: "error + 'a \<Rightarrow> ('a \<Rightarrow> error + 'b) \<Rightarrow> error + 'b" where
  "bnd m f = (case m of Inl e \<Rightarrow> Inl e | Inr x \<Rightarrow> f x)"

subsection \<open>Strings\<close>

type_synonym ustr = "nat list"

definition ascii :: "string \<Rightarrow> ustr" where
  "ascii s = map of_char s"

text \<open>The glyphs U+2588 (full block) and U+2591 (light shade), and the two control characters.\<close>

definition FULL_BLOCK :: nat where "FULL_BLOCK = 9608"
definition LIGHT_SHADE :: nat where "LIGHT_SHADE = 9617"
definition CR :: nat where "CR = 13"
definition LF :: nat where "LF = 10"

text \<open>
  \<open>s * n\<close> for a string and an integer, as CPython 3.11 computes it on a 64-bit
  platform. The count is first converted to an index-sized integer (\<open>Py_ssize_t\<close>),
  which raises \<open>OverflowError\<close> when it does not fit. A count below one gives the
  empty string. A length of the result beyond the index range raises \<open>OverflowError\<close>
  as well. The new string is then requested, and the request is refused with
  \<open>MemoryError\<close>, before anything is allocated, when the characters and the 72-byte
  header of the object do not fit the index range; the strings repeated in
  \<open>progress.py\<close> are the two bar glyphs, which take two bytes a character.

  Beyond that refusal, a request can fail because the machine has no memory left for it.
  That depends on the machine and is outside this model, so a normal return is stated
  below only for bars of a few thousand glyphs at most.
\<close>

definition PY_SSIZE_T_MAX :: int where "PY_SSIZE_T_MAX = 2 ^ 63 - 1"

definition MAX_STR_LENGTH :: int where "MAX_STR_LENGTH = (PY_SSIZE_T_MAX - 72) div 2 - 1"

definition str_repeat :: "ustr \<Rightarrow> int \<Rightarrow> error + ustr" where
  "str_repeat s n =
     (if n < - PY_SSIZE_T_MAX - 1 \<or> PY_SSIZE_T_MAX < n then Inl OverflowError
      else if n < 1 then Inr []
      else if PY_SSIZE_T_MAX div n < int (length s) then Inl OverflowError
      else if MAX_STR_LENGTH < int (length s) * n then Inl MemoryError
      else Inr (concat (replicate (nat n) s)))"

text \<open>
  \<open>str(n)\<close> for an integer, also its conversion inside an f-string: the decimal
  digits, with a minus sign for a negative one. The conversion raises \<open>ValueError\<close>
  when there are more digits than \<open>sys.int_info.default_max_str_digits\<close> (the limit
  that CPython has by default since 3.11).
\<close>

fun digits :: "nat \<Rightarrow> ustr" where
  "digits n = (if n < 10 then [48 + n] else digits (n div 10) @ [48 + n mod 10])"

declare digits.simps [simp del]

definition decimal :: "int \<Rightarrow> ustr" where
  "decimal n = (if n < 0 then ascii ''-'' @ digits (nat (- n)) else digits (nat n))"

definition INT_MAX_STR_DIGITS :: nat where "INT_MAX_STR_DIGITS = 4300"

definition str_int :: "int \<Rightarrow> error + ustr" where
  "str_int n =
     (if INT_MAX_STR_DIGITS < length (digits (nat \<bar>n\<bar>)) then Inl ValueError
      else Inr (decimal n))"

subsection \<open>Floats\<close>

text \<open>
  A float is a sign with a magnitude, an infinity, or a NaN. \<open>Finite True 0\<close> is the
  negative zero. The magnitudes that the operations below produce are binary64 values:
  every result goes through \<open>round_double\<close>.
\<close>

datatype pyfloat = Finite bool rat | Infinity bool | NaN

definition round_half_even :: "rat \<Rightarrow> int" where
  "round_half_even x =
     (let f = \<lfloor>x\<rfloor>; r = x - of_int f
      in if r < 1 / 2 then f else if 1 / 2 < r then f + 1 else if even f then f else f + 1)"

text \<open>\<open>ilog2 x\<close> is the binary exponent of a positive rational: \<open>2 powi ilog2 x \<le> x < 2 powi (ilog2 x + 1)\<close>.\<close>

definition ilog2 :: "rat \<Rightarrow> int" where
  "ilog2 x = (if 1 \<le> x then bitlen \<lfloor>x\<rfloor> - 1 else - bitlen (\<lceil>1 / x\<rceil> - 1))"

text \<open>
  Rounding of a non-negative rational to the nearest binary64 magnitude, ties to even:
  53 significant bits, the least exponent of a unit in the last place is \<open>-1074\<close>
  (subnormal numbers), and \<open>None\<close> when the rounded value reaches \<open>2 ^ 1024\<close>.
\<close>

definition ulp_exp :: "rat \<Rightarrow> int" where
  "ulp_exp x = max (ilog2 x - 52) (- 1074)"

definition nearest_double :: "rat \<Rightarrow> rat" where
  "nearest_double x =
     (if x = 0 then 0
      else let p = ulp_exp x
           in of_int (round_half_even (x / 2 powi p)) * 2 powi p)"

definition round_double :: "rat \<Rightarrow> rat option" where
  "round_double x = (let y = nearest_double x in if y < 2 ^ 1024 then Some y else None)"

text \<open>The largest finite binary64 value, \<open>sys.float_info.max\<close>.\<close>

definition DBL_MAX :: rat where
  "DBL_MAX = (2 ^ 53 - 1) * 2 ^ 971"

text \<open>The result of an arithmetic operation on floats: overflow gives an infinity.\<close>

definition round_signed :: "bool \<Rightarrow> rat \<Rightarrow> pyfloat" where
  "round_signed s x = (case round_double x of None \<Rightarrow> Infinity s | Some m \<Rightarrow> Finite s m)"

text \<open>\<open>float(n)\<close>, also the implicit conversion of an integer operand of a float operation.\<close>

definition float_of_int :: "int \<Rightarrow> error + pyfloat" where
  "float_of_int n =
     (case round_double (of_int \<bar>n\<bar>) of
        None \<Rightarrow> Inl OverflowError
      | Some m \<Rightarrow> Inr (Finite (n < 0) m))"

text \<open>\<open>a / b\<close> on two integers: the correctly rounded quotient.\<close>

definition int_truediv :: "int \<Rightarrow> int \<Rightarrow> error + pyfloat" where
  "int_truediv a b =
     (if b = 0 then Inl ZeroDivisionError
      else case round_double (of_int \<bar>a\<bar> / of_int \<bar>b\<bar>) of
             None \<Rightarrow> Inl OverflowError
           | Some m \<Rightarrow> Inr (Finite ((a < 0) \<noteq> (b < 0)) m))"

definition signed :: "bool \<Rightarrow> rat \<Rightarrow> rat" where
  "signed s m = (if s then - m else m)"

fun float_sub :: "pyfloat \<Rightarrow> pyfloat \<Rightarrow> pyfloat" where
  "float_sub NaN y = NaN"
| "float_sub x NaN = NaN"
| "float_sub (Infinity s) (Infinity t) = (if s = t then NaN else Infinity s)"
| "float_sub (Infinity s) (Finite t n) = Infinity s"
| "float_sub (Finite s m) (Infinity t) = Infinity (\<not> t)"
| "float_sub (Finite s m) (Finite t n) =
     (let v = signed s m - signed t n
      in if v = 0 then Finite (s \<and> \<not> t) 0 else round_signed (v < 0) \<bar>v\<bar>)"

fun float_mul :: "pyfloat \<Rightarrow> pyfloat \<Rightarrow> pyfloat" where
  "float_mul NaN y = NaN"
| "float_mul x NaN = NaN"
| "float_mul (Infinity s) (Infinity t) = Infinity (s \<noteq> t)"
| "float_mul (Infinity s) (Finite t n) = (if n = 0 then NaN else Infinity (s \<noteq> t))"
| "float_mul (Finite s m) (Infinity t) = (if m = 0 then NaN else Infinity (s \<noteq> t))"
| "float_mul (Finite s m) (Finite t n) = round_signed (s \<noteq> t) (m * n)"

text \<open>\<open>x / y\<close> on floats raises when the divisor is a zero, whatever the dividend.\<close>

fun float_truediv :: "pyfloat \<Rightarrow> pyfloat \<Rightarrow> error + pyfloat" where
  "float_truediv x (Finite t n) =
     (if n = 0 then Inl ZeroDivisionError
      else case x of
             NaN \<Rightarrow> Inr NaN
           | Infinity s \<Rightarrow> Inr (Infinity (s \<noteq> t))
           | Finite s m \<Rightarrow> Inr (round_signed (s \<noteq> t) (m / n)))"
| "float_truediv x NaN = Inr NaN"
| "float_truediv x (Infinity t) =
     (case x of
        NaN \<Rightarrow> Inr NaN
      | Infinity s \<Rightarrow> Inr NaN
      | Finite s m \<Rightarrow> Inr (Finite (s \<noteq> t) 0))"

text \<open>A float operation with an integer operand converts the integer first.\<close>

definition float_mul_int :: "pyfloat \<Rightarrow> int \<Rightarrow> error + pyfloat" where
  "float_mul_int x n = bnd (float_of_int n) (\<lambda>y. Inr (float_mul x y))"

definition float_truediv_int :: "pyfloat \<Rightarrow> int \<Rightarrow> error + pyfloat" where
  "float_truediv_int x n = bnd (float_of_int n) (\<lambda>y. float_truediv x y)"

text \<open>\<open>int(x)\<close> on a float truncates toward zero.\<close>

fun int_of_float :: "pyfloat \<Rightarrow> error + int" where
  "int_of_float NaN = Inl ValueError"
| "int_of_float (Infinity s) = Inl OverflowError"
| "int_of_float (Finite s m) = Inr (if s then - \<lfloor>m\<rfloor> else \<lfloor>m\<rfloor>)"

text \<open>
  \<open>format(x, '.Nf')\<close>: the exact value rounded to \<open>N\<close> decimals, ties to even; the sign
  is kept even when the digits are all zero; the fraction is padded to \<open>N\<close> digits.
\<close>

definition pad_digits :: "nat \<Rightarrow> nat \<Rightarrow> ustr" where
  "pad_digits k n = replicate (k - length (digits n)) 48 @ digits n"

fun format_f :: "nat \<Rightarrow> pyfloat \<Rightarrow> ustr" where
  "format_f k NaN = ascii ''nan''"
| "format_f k (Infinity s) = (if s then ascii ''-inf'' else ascii ''inf'')"
| "format_f k (Finite s m) =
     (let d = nat (round_half_even (m * 10 ^ k))
      in (if s then ascii ''-'' else []) @ digits (d div 10 ^ k) @
         (if k = 0 then [] else ascii ''.'' @ pad_digits k (d mod 10 ^ k)))"

section \<open>The tracker\<close>

text \<open>
  \<open>class ProgressTracker\<close>: the four attributes that \<open>__init__\<close> sets. The standard
  output is the list of the calls made on \<open>sys.stdout\<close>; \<open>print()\<close> writes a line feed.
  The stream accepts every write: a closed pipe or a terminal encoding without the bar
  glyphs is outside this model.
  Each call of \<open>time.time()\<close> is an input of the model: the reading is a parameter of
  the function that makes the call.
\<close>

record tracker =
  total_steps :: int
  current_step :: int
  description :: ustr
  start_time :: pyfloat

datatype out_event = Write ustr | Flush

record world =
  trk :: tracker
  stdout :: "out_event list"

definition init :: "int \<Rightarrow> ustr \<Rightarrow> pyfloat \<Rightarrow> tracker" where
  "init tot desc now =
     \<lparr>total_steps = tot, current_step = 0, description = desc, start_time = now\<rparr>"

subsection \<open>The local variables of \<open>_display\<close>\<close>

definition percent :: "tracker \<Rightarrow> error + pyfloat" where
  "percent self =
     bnd (int_truediv (current_step self) (total_steps self)) (\<lambda>q. float_mul_int q 100)"

definition eta_str :: "pyfloat \<Rightarrow> tracker \<Rightarrow> error + ustr" where
  "eta_str elapsed self =
     (if current_step self > 0 then
        bnd (float_truediv_int elapsed (current_step self)) (\<lambda>avg_time_per_step.
        let remaining_steps = total_steps self - current_step self in
        bnd (float_mul_int avg_time_per_step remaining_steps) (\<lambda>estimated_remaining.
        bnd (float_truediv_int estimated_remaining 60) (\<lambda>minutes.
        Inr (ascii '' | ETA: '' @ format_f 1 minutes @ ascii ''min''))))
      else Inr [])"

definition bar_length :: int where
  "bar_length = 30"

definition filled :: "tracker \<Rightarrow> error + int" where
  "filled self =
     bnd (int_truediv (bar_length * current_step self) (total_steps self)) int_of_float"

definition bar :: "int \<Rightarrow> error + ustr" where
  "bar n =
     bnd (str_repeat [FULL_BLOCK] n) (\<lambda>a.
     bnd (str_repeat [LIGHT_SHADE] (bar_length - n)) (\<lambda>b.
     Inr (a @ b)))"

text \<open>The f-string that \<open>_display\<close> passes to \<open>sys.stdout.write\<close>.\<close>

definition render_line :: "ustr \<Rightarrow> ustr \<Rightarrow> pyfloat \<Rightarrow> ustr \<Rightarrow> ustr \<Rightarrow> ustr \<Rightarrow> ustr" where
  "render_line desc b pc cur tot eta =
     [CR] @ desc @ ascii '': ['' @ b @ ascii ''] '' @ format_f 0 pc @ ascii ''% ('' @
     cur @ ascii ''/'' @ tot @ ascii '')'' @ eta"

text \<open>The body of \<open>_display\<close> up to the write, in the order the source computes it.\<close>

definition line :: "pyfloat \<Rightarrow> tracker \<Rightarrow> error + ustr" where
  "line now self =
     bnd (percent self) (\<lambda>pc.
     let elapsed = float_sub now (start_time self) in
     bnd (eta_str elapsed self) (\<lambda>eta.
     bnd (filled self) (\<lambda>n.
     bnd (bar n) (\<lambda>b.
     bnd (str_int (current_step self)) (\<lambda>cur.
     bnd (str_int (total_steps self)) (\<lambda>tot.
     Inr (render_line (description self) b pc cur tot eta)))))))"

subsection \<open>\<open>_display\<close> and \<open>update\<close>\<close>

text \<open>
  A call returns its outcome together with the world it leaves: an exception does not
  undo the assignments made before it.
\<close>

definition display :: "pyfloat \<Rightarrow> world \<Rightarrow> (error + unit) \<times> world" where
  "display now w =
     (let self = trk w in
      if total_steps self = 0 then (Inr (), w)
      else case line now self of
             Inl e \<Rightarrow> (Inl e, w)
           | Inr l \<Rightarrow>
               (let w1 = w\<lparr>stdout := stdout w @ [Write l]\<rparr>;
                    w2 = w1\<lparr>stdout := stdout w1 @ [Flush]\<rparr>
                in if current_step self \<ge> total_steps self
                   then (Inr (), w2\<lparr>stdout := stdout w2 @ [Write [LF]]\<rparr>)
                   else (Inr (), w2)))"

definition step_to :: "int option \<Rightarrow> tracker \<Rightarrow> tracker" where
  "step_to step self =
     (case step of
        Some k \<Rightarrow> self\<lparr>current_step := k\<rparr>
      | None \<Rightarrow> self\<lparr>current_step := current_step self + 1\<rparr>)"

definition update :: "int option \<Rightarrow> pyfloat \<Rightarrow> world \<Rightarrow> (error + unit) \<times> world" where
  "update step now w = display now (w\<lparr>trk := step_to step (trk w)\<rparr>)"

text \<open>
  A caller that makes one call of \<open>update\<close> after the other, each with its own clock
  reading, and goes on to the next call whatever the outcome of the one before. The
  result lists, call by call, the outcome and the world the call leaves.
\<close>

fun run_updates ::
  "(int option \<times> pyfloat) list \<Rightarrow> world \<Rightarrow> ((error + unit) \<times> world) list" where
  "run_updates [] w = []"
| "run_updates ((step, now) # calls) w =
     (let rw = update step now w in rw # run_updates calls (snd rw))"

section \<open>The scoped helper\<close>

text \<open>
  \<open>track_progress\<close> is a generator under \<open>contextlib.contextmanager\<close>, used as
  \<open>with track_progress(total, desc) as tracker: body\<close>. The body is any code of the
  caller: a function from the world it starts in to its outcome (a fault of the caller's
  own type, or a value) and the world it leaves. The \<open>finally\<close> clause runs on both
  exits; an exception raised inside it replaces the pending one.
\<close>

datatype 'e raised = Propagated 'e | Finalizer error

definition track_progress ::
  "int \<Rightarrow> ustr \<Rightarrow> pyfloat \<Rightarrow> pyfloat \<Rightarrow> (world \<Rightarrow> ('e + 'a) \<times> world) \<Rightarrow>
   out_event list \<Rightarrow> ('e raised + 'a) \<times> world" where
  "track_progress tot desc t_enter t_exit body out =
     (let tracker = init tot desc t_enter;
          (r, w) = body \<lparr>trk = tracker, stdout = out\<rparr>
      in if current_step (trk w) < total_steps (trk w)
         then (case update (Some (total_steps (trk w))) t_exit w of
                 (Inl e, w') \<Rightarrow> (Inl (Finalizer e), w')
               | (Inr u, w') \<Rightarrow> (map_sum Propagated id r, w'))
         else (map_sum Propagated id r, w))"

text \<open>
  Four bodies of a \<open>with\<close> block, for the examples below: one call of \<open>update()\<close>
  and a normal exit; one call of \<open>update()\<close> and then a fault; a fault at once; and
  \<open>update(step=-1)\<close> followed by a fault.
\<close>

definition returning_body :: "world \<Rightarrow> (string + unit) \<times> world" where
  "returning_body w = (Inr (), snd (update None (Finite False 1) w))"

definition raising_body :: "world \<Rightarrow> (string + unit) \<times> world" where
  "raising_body w = (Inl ''boom'', snd (update None (Finite False 1) w))"

definition raise_at_once :: "world \<Rightarrow> (string + unit) \<times> world" where
  "raise_at_once w = (Inl ''boom'', w)"

definition backward_raising_body :: "world \<Rightarrow> (string + unit) \<times> world" where
  "backward_raising_body w = (Inl ''boom'', snd (update (Some (- 1)) (Finite False 1) w))"

section \<open>Rounding to binary64\<close>

lemma round_half_even_ge: "of_int N \<le> x \<Longrightarrow> N \<le> round_half_even x"
proof -
  assume "of_int N \<le> x"
  then have "N \<le> \<lfloor>x\<rfloor>" by (simp add: le_floor_iff)
  then show ?thesis by (auto simp: round_half_even_def Let_def)
qed

lemma round_half_even_le: "x \<le> of_int N \<Longrightarrow> round_half_even x \<le> N"
proof (cases "x = of_int N")
  case True
  then show ?thesis by (simp add: round_half_even_def)
next
  case False
  assume "x \<le> of_int N"
  with False have "x < of_int N" by simp
  then have "\<lfloor>x\<rfloor> < N" by (simp add: floor_less_iff)
  then show ?thesis by (auto simp: round_half_even_def Let_def)
qed

lemma ilog2_lower:
  assumes "0 < x"
  shows "2 powi ilog2 x \<le> x"
proof (cases "1 \<le> x")
  case True
  then have pos: "0 < \<lfloor>x\<rfloor>" by (simp add: less_floor_iff) 
  from bitlen_bounds[OF pos] have "2 ^ nat (bitlen \<lfloor>x\<rfloor> - 1) \<le> \<lfloor>x\<rfloor>" by simp
  then have "(of_int (2 ^ nat (bitlen \<lfloor>x\<rfloor> - 1)) :: rat) \<le> of_int \<lfloor>x\<rfloor>"
    by (simp only: of_int_le_iff)
  also have "\<dots> \<le> x" by simp
  finally have "(2::rat) ^ nat (bitlen \<lfloor>x\<rfloor> - 1) \<le> x" by simp
  moreover have "1 \<le> bitlen \<lfloor>x\<rfloor>" using pos by (auto simp: bitlen_alt_def)
  ultimately show ?thesis using True by (simp add: ilog2_def power_int_def)
next
  case False
  with assms have x1: "x < 1" by simp
  define n where "n = \<lceil>1 / x\<rceil> - 1"
  have "1 < 1 / x" using assms x1 by (simp add: field_simps)
  then have "1 < \<lceil>1 / x\<rceil>" by (simp add: less_ceiling_iff)
  then have pos: "0 < n" by (simp add: n_def)
  from bitlen_bounds[OF pos] have "n < 2 ^ nat (bitlen n)" by simp
  then have "\<lceil>1 / x\<rceil> \<le> 2 ^ nat (bitlen n)" by (simp add: n_def)
  then have "1 / x \<le> of_int (2 ^ nat (bitlen n))" by (simp only: ceiling_le_iff)
  then have "1 / x \<le> 2 ^ nat (bitlen n)" by simp
  then have "1 / 2 ^ nat (bitlen n) \<le> x" using assms
    by (simp add: field_simps)
  moreover have "1 \<le> bitlen n" using pos by (auto simp: bitlen_alt_def)
  ultimately show ?thesis using False
    by (simp add: ilog2_def n_def power_int_def inverse_eq_divide power_one_over)
qed

lemma ilog2_upper:
  assumes "0 < x"
  shows "x < 2 powi (ilog2 x + 1)"
proof (cases "1 \<le> x")
  case True
  then have pos: "0 < \<lfloor>x\<rfloor>" by (simp add: less_floor_iff) 
  from bitlen_bounds[OF pos] have "\<lfloor>x\<rfloor> < 2 ^ nat (bitlen \<lfloor>x\<rfloor>)" by simp
  then have "x < of_int (2 ^ nat (bitlen \<lfloor>x\<rfloor>))" by (simp only: floor_less_iff)
  then have "x < 2 ^ nat (bitlen \<lfloor>x\<rfloor>)" by simp
  moreover have "0 \<le> bitlen \<lfloor>x\<rfloor>" by (rule bitlen_nonneg)
  ultimately show ?thesis using True by (simp add: ilog2_def power_int_def)
next
  case False
  with assms have x1: "x < 1" by simp
  define n where "n = \<lceil>1 / x\<rceil> - 1"
  have "1 < 1 / x" using assms x1 by (simp add: field_simps)
  then have "1 < \<lceil>1 / x\<rceil>" by (simp add: less_ceiling_iff)
  then have pos: "0 < n" by (simp add: n_def)
  then have k1: "1 \<le> bitlen n" by (auto simp: bitlen_alt_def)
  from bitlen_bounds[OF pos] have "2 ^ nat (bitlen n - 1) \<le> n" by simp
  then have "2 ^ nat (bitlen n - 1) < \<lceil>1 / x\<rceil>" by (simp add: n_def)
  then have "of_int (2 ^ nat (bitlen n - 1)) < 1 / x" by (simp only: less_ceiling_iff)
  then have "2 ^ nat (bitlen n - 1) < 1 / x" by simp
  then have "x < 1 / 2 ^ nat (bitlen n - 1)" using assms
    by (simp add: field_simps)
  also have "\<dots> = 2 powi (- (bitlen n - 1))" using k1
    by (simp add: power_int_def inverse_eq_divide power_one_over)
  finally show ?thesis using False
    by (simp add: ilog2_def n_def)
qed

lemma ilog2_less: 
  assumes "0 < x" and "x < 2 powi n"
  shows "ilog2 x < n"
proof -
  have lt: "(2::rat) powi ilog2 x < 2 powi n"
    using ilog2_lower[OF assms(1)] assms(2) by (rule le_less_trans)
  show ?thesis
  proof (rule ccontr)
    assume "\<not> ilog2 x < n"
    then have "n \<le> ilog2 x" by simp
    then have "(2::rat) powi n \<le> 2 powi ilog2 x" by (rule power_int_increasing) simp
    with lt show False by simp
  qed
qed

lemma ilog2_ge: 
  assumes "0 < x" and "2 powi n \<le> x"
  shows "n \<le> ilog2 x"
proof -
  have lt: "(2::rat) powi n < 2 powi (ilog2 x + 1)"
    using assms(2) ilog2_upper[OF assms(1)] by (rule le_less_trans)
  show ?thesis
  proof (rule ccontr)
    assume "\<not> n \<le> ilog2 x"
    then have "ilog2 x + 1 \<le> n" by simp
    then have "(2::rat) powi (ilog2 x + 1) \<le> 2 powi n" by (rule power_int_increasing) simp
    with lt show False by simp
  qed
qed

lemma nearest_double_eq:
  "x \<noteq> 0 \<Longrightarrow> nearest_double x = of_int (round_half_even (x / 2 powi ulp_exp x)) * 2 powi ulp_exp x"
  by (simp add: nearest_double_def Let_def)

lemma grid_point:
  assumes "p \<le> j"
  shows "of_int N * 2 powi j = (of_int (N * 2 ^ nat (j - p)) :: rat) * 2 powi p"
proof -
  have "(2::rat) powi j = 2 powi ((j - p) + p)" by simp
  also have "\<dots> = 2 powi (j - p) * 2 powi p" by (subst power_int_add) simp_all
  also have "(2::rat) powi (j - p) = 2 ^ nat (j - p)" using assms by (simp add: power_int_def)
  finally show ?thesis by simp
qed

lemma nearest_double_grid_ge:
  assumes "0 < x" and "ulp_exp x \<le> j" and "of_int N * 2 powi j \<le> x"
  shows "of_int N * 2 powi j \<le> nearest_double x"
proof -
  define p where "p = ulp_exp x"
  define M where "M = N * 2 ^ nat (j - p)"
  have pos: "(0::rat) < 2 powi p" by (simp add: zero_less_power_int)
  have eq: "of_int N * 2 powi j = (of_int M :: rat) * 2 powi p"
    unfolding M_def using assms(2) by (intro grid_point) (simp add: p_def)
  with assms(3) have "of_int M * 2 powi p \<le> x" by simp
  then have "of_int M \<le> x / 2 powi p" using pos by (simp add: pos_le_divide_eq)
  then have "M \<le> round_half_even (x / 2 powi p)" by (rule round_half_even_ge)
  then have "(of_int M :: rat) \<le> of_int (round_half_even (x / 2 powi p))" by simp
  then have "of_int M * 2 powi p \<le> (of_int (round_half_even (x / 2 powi p)) :: rat) * 2 powi p"
    by (rule mult_right_mono) (use pos in simp)
  then show ?thesis using assms(1) eq by (simp add: nearest_double_eq p_def)
qed

lemma nearest_double_grid_le:
  assumes "0 < x" and "ulp_exp x \<le> j" and "x \<le> of_int N * 2 powi j"
  shows "nearest_double x \<le> of_int N * 2 powi j"
proof -
  define p where "p = ulp_exp x"
  define M where "M = N * 2 ^ nat (j - p)"
  have pos: "(0::rat) < 2 powi p" by (simp add: zero_less_power_int)
  have eq: "of_int N * 2 powi j = (of_int M :: rat) * 2 powi p"
    unfolding M_def using assms(2) by (intro grid_point) (simp add: p_def)
  with assms(3) have "x \<le> of_int M * 2 powi p" by simp
  then have "x / 2 powi p \<le> of_int M" using pos by (simp add: pos_divide_le_eq)
  then have "round_half_even (x / 2 powi p) \<le> M" by (rule round_half_even_le)
  then have "(of_int (round_half_even (x / 2 powi p)) :: rat) \<le> of_int M" by simp
  then have "of_int (round_half_even (x / 2 powi p)) * 2 powi p \<le> (of_int M :: rat) * 2 powi p"
    by (rule mult_right_mono) (use pos in simp)
  then show ?thesis using assms(1) eq by (simp add: nearest_double_eq p_def)
qed

lemma ulp_exp_le:
  assumes "0 < x" and "x < 2 powi (j + 53)" and "- 1074 \<le> j"
  shows "ulp_exp x \<le> j"
  using ilog2_less[OF assms(1,2)] assms(3) by (simp add: ulp_exp_def)

lemma nearest_double_nonneg: "0 \<le> x \<Longrightarrow> 0 \<le> nearest_double x"
proof (cases "x = 0")
  case True
  then show ?thesis by (simp add: nearest_double_def)
next
  case False
  assume "0 \<le> x"
  with False have pos: "0 < x" by simp
  have "of_int 0 * 2 powi ulp_exp x \<le> nearest_double x"
    by (rule nearest_double_grid_ge[OF pos]) (use pos in simp_all)
  then show ?thesis by simp
qed

lemma nearest_double_ge_pow:
  assumes "0 < x" and "- 1022 \<le> ilog2 x"
  shows "2 powi ilog2 x \<le> nearest_double x"
proof -
  have p: "ulp_exp x = ilog2 x - 52" using assms(2) by (simp add: ulp_exp_def)
  have "(2::rat) powi ilog2 x = 2 powi (52 + (ilog2 x - 52))" by simp
  also have "\<dots> = 2 powi 52 * 2 powi (ilog2 x - 52)" by (subst power_int_add) simp_all
  finally have eq: "(2::rat) powi ilog2 x = of_int (2 ^ 52) * 2 powi (ilog2 x - 52)" by simp
  have "of_int (2 ^ 52) * 2 powi (ilog2 x - 52) \<le> nearest_double x"
    by (rule nearest_double_grid_ge[OF assms(1)]) (use p eq ilog2_lower[OF assms(1)] in simp_all)
  then show ?thesis using eq by simp
qed

lemma nearest_double_ge_1:
  assumes "1 \<le> x"
  shows "1 \<le> nearest_double x"
proof -
  have pos: "0 < x" using assms by simp
  have e: "0 \<le> ilog2 x" by (rule ilog2_ge[OF pos]) (use assms in simp)
  then have "(1::rat) \<le> 2 powi ilog2 x" by (simp add: one_le_power_int)
  also have "\<dots> \<le> nearest_double x" by (rule nearest_double_ge_pow[OF pos]) (use e in simp)
  finally show ?thesis .
qed

lemma round_double_in_range:
  assumes "0 \<le> x" and "x \<le> DBL_MAX"
  shows "round_double x = Some (nearest_double x)"
proof (cases "x = 0")
  case True
  then show ?thesis by (simp add: round_double_def nearest_double_def)
next
  case False
  with assms have pos: "0 < x" by simp
  have lt: "x < 2 powi (971 + 53)" using assms(2) by (simp add: DBL_MAX_def)
  have "nearest_double x \<le> of_int (2 ^ 53 - 1) * 2 powi 971"
    by (rule nearest_double_grid_le[OF pos ulp_exp_le[OF pos lt]]) (use assms(2) in \<open>simp_all add: DBL_MAX_def\<close>)
  then have "nearest_double x < 2 ^ 1024" by simp
  then show ?thesis by (simp add: round_double_def)
qed

lemma round_double_overflow:
  assumes "2 ^ 1024 \<le> x"
  shows "round_double x = None"
proof -
  have pos: "0 < x" by (rule less_le_trans[OF _ assms]) simp
  have e: "1024 \<le> ilog2 x" by (rule ilog2_ge[OF pos]) (use assms in simp)
  then have "(2::rat) powi 1024 \<le> 2 powi ilog2 x" by (rule power_int_increasing) simp
  also have "\<dots> \<le> nearest_double x" by (rule nearest_double_ge_pow[OF pos]) (use e in simp)
  finally show ?thesis by (simp add: round_double_def)
qed

lemma nearest_double_exact:
  assumes "0 \<le> N" and "rat_of_int N * 2 powi j < 2 powi (j + 53)" and "- 1074 \<le> j"
  shows "nearest_double (of_int N * 2 powi j) = of_int N * 2 powi j"
proof (cases "of_int N * (2::rat) powi j = 0")
  case True
  then show ?thesis by (simp add: nearest_double_def)
next
  case False
  define x :: rat where "x = of_int N * 2 powi j"
  have "0 \<le> x" using assms(1) by (simp add: x_def)
  moreover have "x \<noteq> 0" using False by (simp only: x_def) simp
  ultimately have pos: "0 < x" by simp
  have u: "ulp_exp x \<le> j" by (rule ulp_exp_le[OF pos]) (use assms in \<open>simp_all add: x_def\<close>)
  have "of_int N * 2 powi j \<le> nearest_double x"
    by (rule nearest_double_grid_ge[OF pos u]) (simp add: x_def)
  moreover have "nearest_double x \<le> of_int N * 2 powi j"
    by (rule nearest_double_grid_le[OF pos u]) (simp add: x_def)
  ultimately show ?thesis by (simp add: x_def)
qed

lemma nearest_double_of_int:
  assumes "0 \<le> n" and "n < 2 ^ 53"
  shows "nearest_double (of_int n) = of_int n"
proof -
  have "rat_of_int n < of_int (2 ^ 53)" using assms(2) by (simp only: of_int_less_iff)
  then have "of_int n * 2 powi 0 < (2::rat) powi (0 + 53)" by simp
  from nearest_double_exact[OF assms(1) this] show ?thesis by simp
qed

lemma DBL_MAX_ge: "2 ^ 128 \<le> DBL_MAX"
  by (simp add: DBL_MAX_def)

lemma of_int_le_DBL_MAX:
  assumes "\<bar>n\<bar> \<le> 2 ^ 128"
  shows "rat_of_int \<bar>n\<bar> \<le> DBL_MAX"
proof -
  have "rat_of_int \<bar>n\<bar> \<le> of_int (2 ^ 128)" using assms by (simp only: of_int_le_iff)
  also have "\<dots> \<le> DBL_MAX" using DBL_MAX_ge by simp
  finally show ?thesis .
qed

lemma float_of_int_in_range:
  assumes "of_int \<bar>n\<bar> \<le> DBL_MAX"
  shows "float_of_int n = Inr (Finite (n < 0) (nearest_double (of_int \<bar>n\<bar>)))"
  using round_double_in_range[of "of_int \<bar>n\<bar>"] assms by (simp add: float_of_int_def)

lemma float_of_int_overflow:
  assumes "2 ^ 1024 \<le> \<bar>n\<bar>"
  shows "float_of_int n = Inl OverflowError"
proof -
  have "rat_of_int (2 ^ 1024) \<le> of_int \<bar>n\<bar>" using assms by (simp only: of_int_le_iff)
  then have "round_double (of_int \<bar>n\<bar>) = None" by (intro round_double_overflow) simp
  then show ?thesis by (simp add: float_of_int_def)
qed

lemma float_of_int_small:
  assumes "\<bar>n\<bar> < 2 ^ 53"
  shows "float_of_int n = Inr (Finite (n < 0) (of_int \<bar>n\<bar>))"
proof -
  have "\<bar>n\<bar> \<le> 2 ^ 128" using assms by simp
  from float_of_int_in_range[OF of_int_le_DBL_MAX[OF this]] nearest_double_of_int[of "\<bar>n\<bar>"] assms
  show ?thesis by simp
qed

lemma quotient_le:
  assumes "b \<noteq> 0"
  shows "rat_of_int \<bar>a\<bar> / of_int \<bar>b\<bar> \<le> of_int \<bar>a\<bar>"
proof -
  have "1 \<le> \<bar>b\<bar>" using assms by simp
  then have "(1::rat) \<le> of_int \<bar>b\<bar>" by (simp only: of_int_1_le_iff)
  then have "rat_of_int \<bar>a\<bar> / of_int \<bar>b\<bar> \<le> of_int \<bar>a\<bar> / 1"
    by (intro divide_left_mono) simp_all
  then show ?thesis by simp
qed

lemma int_truediv_in_range:
  assumes "b \<noteq> 0" and "of_int \<bar>a\<bar> \<le> DBL_MAX"
  shows "int_truediv a b =
         Inr (Finite ((a < 0) \<noteq> (b < 0)) (nearest_double (of_int \<bar>a\<bar> / of_int \<bar>b\<bar>)))"
proof -
  have "rat_of_int \<bar>a\<bar> / of_int \<bar>b\<bar> \<le> DBL_MAX"
    using quotient_le[OF assms(1), of a] assms(2) by (rule order_trans)
  moreover have "0 \<le> rat_of_int \<bar>a\<bar> / of_int \<bar>b\<bar>" by simp
  ultimately have "round_double (of_int \<bar>a\<bar> / of_int \<bar>b\<bar>)
                   = Some (nearest_double (of_int \<bar>a\<bar> / of_int \<bar>b\<bar>))"
    by (intro round_double_in_range)
  then show ?thesis using assms(1) by (simp add: int_truediv_def)
qed


lemma int_truediv_error:
  assumes "b \<noteq> 0" and "int_truediv a b = Inl e"
  shows "e = OverflowError"
  using assms by (auto simp: int_truediv_def split: option.splits)

lemma int_truediv_finite:
  assumes "int_truediv a b = Inr q"
  shows "\<exists>s m. q = Finite s m \<and> 0 \<le> m"
proof -
  have "0 \<le> nearest_double (of_int \<bar>a\<bar> / of_int \<bar>b\<bar>)" by (rule nearest_double_nonneg) simp
  then show ?thesis using assms
    by (auto simp: int_truediv_def round_double_def Let_def split: if_splits)
qed

lemma float_of_int_error:
  assumes "float_of_int n = Inl e"
  shows "e = OverflowError"
  using assms by (auto simp: float_of_int_def split: option.splits)

lemma float_of_int_positive:
  assumes "0 < n" and "float_of_int n = Inr y"
  shows "\<exists>m. y = Finite False m \<and> 1 \<le> m"
proof -
  have "1 \<le> n" using assms(1) by simp
  then have "(1::rat) \<le> of_int n" by (simp only: of_int_1_le_iff)
  then have "1 \<le> nearest_double (of_int \<bar>n\<bar>)" using assms(1) by (intro nearest_double_ge_1) simp
  then show ?thesis using assms
    by (auto simp: float_of_int_def round_double_def Let_def split: if_splits)
qed

lemma float_truediv_nonzero:
  assumes "n \<noteq> 0"
  shows "\<exists>z. float_truediv x (Finite t n) = Inr z"
  using assms by (cases x) simp_all

lemma float_mul_int_error:
  assumes "float_mul_int x n = Inl e"
  shows "e = OverflowError"
  using assms float_of_int_error[of n] by (auto simp: float_mul_int_def bnd_def split: sum.splits)

lemma float_truediv_int_error:
  assumes "0 < n" and "float_truediv_int x n = Inl e"
  shows "e = OverflowError"
proof (cases "float_of_int n")
  case (Inl e')
  with assms(2) float_of_int_error[OF Inl] show ?thesis
    by (simp add: float_truediv_int_def bnd_def)
next
  case (Inr y)
  from float_of_int_positive[OF assms(1) Inr] obtain m where "y = Finite False m" "1 \<le> m" by blast
  then have "\<exists>z. float_truediv x y = Inr z" using float_truediv_nonzero[of m x False] by simp
  with assms(2) Inr show ?thesis by (auto simp: float_truediv_int_def bnd_def)
qed

lemma float_truediv_int_in_range:
  assumes "0 < n" and "of_int \<bar>n\<bar> \<le> DBL_MAX"
  shows "\<exists>z. float_truediv_int x n = Inr z"
proof -
  from float_of_int_in_range[OF assms(2)] obtain y where y: "float_of_int n = Inr y" by blast
  from float_of_int_positive[OF assms(1) y] obtain m where "y = Finite False m" "1 \<le> m" by blast
  then have "\<exists>z. float_truediv x y = Inr z" using float_truediv_nonzero[of m x False] by simp
  with y show ?thesis by (simp add: float_truediv_int_def bnd_def)
qed

lemma float_mul_int_in_range:
  assumes "of_int \<bar>n\<bar> \<le> DBL_MAX"
  shows "\<exists>z. float_mul_int x n = Inr z"
  using float_of_int_in_range[OF assms] by (simp add: float_mul_int_def bnd_def)

lemma concat_replicate_single: "concat (replicate k [c]) = replicate k c"
  by (induction k) simp_all

lemma bnd_Inr_iff: "bnd m f = Inr y \<longleftrightarrow> (\<exists>x. m = Inr x \<and> f x = Inr y)"
  by (cases m) (simp_all add: bnd_def)

lemma bnd_Inl_iff: "bnd m f = Inl e \<longleftrightarrow> m = Inl e \<or> (\<exists>x. m = Inr x \<and> f x = Inl e)"
  by (cases m) (simp_all add: bnd_def)

lemma bnd_Inr [simp]: "bnd (Inr x) f = f x"
  by (simp add: bnd_def)

lemma bnd_Inl [simp]: "bnd (Inl e) f = Inl e"
  by (simp add: bnd_def)

section \<open>The render routine, step by step\<close>

subsection \<open>A render never raises \<open>ZeroDivisionError\<close>\<close>

lemma percent_error:
  assumes "total_steps t \<noteq> 0" and "percent t = Inl e"
  shows "e = OverflowError"
  using assms int_truediv_error[of "total_steps t" "current_step t"] float_mul_int_error
  by (auto simp: percent_def bnd_Inl_iff)

lemma eta_str_error:
  assumes "eta_str el t = Inl e"
  shows "e = OverflowError"
proof (cases "0 < current_step t")
  case True
  have sixty: "(0::int) < 60" by simp
  from assms True show ?thesis
    by (auto simp: eta_str_def bnd_Inl_iff Let_def
             dest: float_truediv_int_error[OF True] float_mul_int_error
                   float_truediv_int_error[OF sixty])
next
  case False
  with assms show ?thesis by (simp add: eta_str_def)
qed

lemma filled_error:
  assumes "total_steps t \<noteq> 0" and "filled t = Inl e"
  shows "e = OverflowError"
  using assms int_truediv_error[of "total_steps t" "bar_length * current_step t"]
  by (auto simp: filled_def bnd_Inl_iff dest!: int_truediv_finite)

lemma bar_error:
  assumes "bar n = Inl e"
  shows "e \<noteq> ZeroDivisionError"
  using assms by (auto simp: bar_def bnd_Inl_iff str_repeat_def split: if_splits)

lemma str_int_error:
  assumes "str_int n = Inl e"
  shows "e = ValueError"
  using assms by (simp add: str_int_def split: if_splits)

lemma str_int_Inr:
  assumes "str_int n = Inr s"
  shows "s = decimal n"
  using assms by (simp add: str_int_def split: if_splits)

lemma line_error:
  assumes "total_steps t \<noteq> 0" and "line now t = Inl e"
  shows "e \<noteq> ZeroDivisionError"
  using assms(2)
  by (auto simp: line_def bnd_Inl_iff Let_def
           dest: percent_error[OF assms(1)] eta_str_error filled_error[OF assms(1)] bar_error
                 str_int_error)

subsection \<open>\<open>_display\<close>, case by case\<close>

lemma display_zero:
  "total_steps (trk w) = 0 \<Longrightarrow> display now w = (Inr (), w)"
  by (simp add: display_def)

lemma display_raises:
  "total_steps (trk w) \<noteq> 0 \<Longrightarrow> line now (trk w) = Inl e \<Longrightarrow> display now w = (Inl e, w)"
  by (simp add: display_def)

lemma display_renders:
  "total_steps (trk w) \<noteq> 0 \<Longrightarrow> line now (trk w) = Inr l \<Longrightarrow>
   display now w =
     (Inr (), w\<lparr>stdout := stdout w @ [Write l, Flush] @
                  (if total_steps (trk w) \<le> current_step (trk w) then [Write [LF]] else [])\<rparr>)"
  by (simp add: display_def Let_def)

lemma display_trk: "trk (snd (display now w)) = trk w"
  by (simp add: display_def Let_def split: sum.splits)

lemma update_trk: "trk (snd (update step now w)) = step_to step (trk w)"
  by (simp add: update_def display_trk)

lemma display_error:
  assumes "fst (display now w) = Inl e"
  shows "e \<noteq> ZeroDivisionError"
proof (cases "total_steps (trk w) = 0")
  case True
  with assms show ?thesis by (simp add: display_zero)
next
  case False
  show ?thesis
  proof (cases "line now (trk w)")
    case (Inl e')
    with False assms line_error[OF False Inl] show ?thesis by (simp add: display_raises)
  next
    case (Inr l)
    with False assms show ?thesis by (simp add: display_renders)
  qed
qed

subsection \<open>Renders that succeed\<close>

lemma length_digits:
  "n < 10 ^ k \<Longrightarrow> 0 < k \<Longrightarrow> length (digits n) \<le> k"
proof (induction k arbitrary: n)
  case 0
  then show ?case by simp
next
  case (Suc k)
  show ?case
  proof (cases "n < 10")
    case True
    then show ?thesis by (simp add: digits.simps)
  next
    case False
    with Suc.prems have k: "0 < k" by (cases k) simp_all
    have "n div 10 < 10 ^ k" using Suc.prems(1) by (simp add: less_mult_imp_div_less mult.commute)
    from Suc.IH[OF this k] False show ?thesis by (subst digits.simps) simp
  qed
qed

lemma DBL_MAX_less: "DBL_MAX < 10 ^ 309"
  by (simp add: DBL_MAX_def)

lemma str_int_in_range:
  assumes "of_int \<bar>n\<bar> \<le> DBL_MAX"
  shows "str_int n = Inr (decimal n)"
proof -
  have "rat_of_int \<bar>n\<bar> < of_int (10 ^ 309)" using assms DBL_MAX_less by simp
  then have "\<bar>n\<bar> < 10 ^ 309" by (simp only: of_int_less_iff)
  then have "nat \<bar>n\<bar> < 10 ^ 309" by simp
  then have "length (digits (nat \<bar>n\<bar>)) \<le> 309" by (rule length_digits) simp
  then show ?thesis by (simp add: str_int_def INT_MAX_STR_DIGITS_def)
qed

lemma percent_in_range:
  assumes "total_steps t \<noteq> 0" and "of_int \<bar>current_step t\<bar> \<le> DBL_MAX"
  shows "\<exists>pc. percent t = Inr pc"
proof -
  have "rat_of_int \<bar>100\<bar> \<le> DBL_MAX" by (rule of_int_le_DBL_MAX) simp
  from float_mul_int_in_range[OF this] int_truediv_in_range[OF assms]
  show ?thesis by (simp add: percent_def)
qed

lemma eta_str_nonpositive:
  "current_step t \<le> 0 \<Longrightarrow> eta_str el t = Inr []"
  by (simp add: eta_str_def)

lemma eta_str_in_range:
  assumes "0 < current_step t" 
    and "of_int \<bar>current_step t\<bar> \<le> DBL_MAX"
    and "of_int \<bar>total_steps t - current_step t\<bar> \<le> DBL_MAX"
  shows "\<exists>avg est minutes.
           float_truediv_int el (current_step t) = Inr avg \<and>
           float_mul_int avg (total_steps t - current_step t) = Inr est \<and>
           float_truediv_int est 60 = Inr minutes \<and>
           eta_str el t = Inr (ascii '' | ETA: '' @ format_f 1 minutes @ ascii ''min'')"
proof -
  from float_truediv_int_in_range[OF assms(1,2)]
  obtain avg where avg: "float_truediv_int el (current_step t) = Inr avg" by blast
  from float_mul_int_in_range[OF assms(3)]
  obtain est where est: "float_mul_int avg (total_steps t - current_step t) = Inr est" by blast
  have "rat_of_int \<bar>60\<bar> \<le> DBL_MAX" by (rule of_int_le_DBL_MAX) simp
  from float_truediv_int_in_range[OF _ this, of est]
  obtain minutes where minutes: "float_truediv_int est 60 = Inr minutes" by auto
  from avg est minutes assms(1) show ?thesis by (simp add: eta_str_def)
qed

lemma bar_in_range:
  assumes "\<bar>n\<bar> \<le> 2 ^ 61"
  shows "bar n = Inr (replicate (nat n) FULL_BLOCK @ replicate (nat (bar_length - n)) LIGHT_SHADE)"
proof -
  have "str_repeat [c] k = Inr (replicate (nat k) c)" if "\<bar>k\<bar> \<le> 2 ^ 61 + 30" for c k
  proof (cases "k < 1")
    case True
    with that show ?thesis by (simp add: str_repeat_def PY_SSIZE_T_MAX_def)
  next
    case False
    then have kpos: "0 < k" by simp
    have "k \<le> PY_SSIZE_T_MAX" using that by (simp add: PY_SSIZE_T_MAX_def)
    then have "0 < PY_SSIZE_T_MAX div k" using kpos by (simp only: pos_imp_zdiv_pos_iff)
    then have "1 \<le> PY_SSIZE_T_MAX div k" by simp
    with False that show ?thesis
      by (simp add: str_repeat_def PY_SSIZE_T_MAX_def MAX_STR_LENGTH_def concat_replicate_single)
  qed
  from this[of n FULL_BLOCK] this[of "bar_length - n" LIGHT_SHADE] assms
  show ?thesis by (simp add: bar_def bar_length_def)
qed

lemma bar_shape:
  assumes "bar n = Inr b"
  shows "b = replicate (nat n) FULL_BLOCK @ replicate (nat (bar_length - n)) LIGHT_SHADE"
  using assms
  by (auto simp: bar_def bnd_Inr_iff str_repeat_def concat_replicate_single split: if_splits)

lemma filled_in_range:
  assumes "total_steps t \<noteq> 0" and "\<bar>total_steps t\<bar> < 2 ^ 58"
    and "\<bar>current_step t\<bar> \<le> 100 * \<bar>total_steps t\<bar>"
  shows "\<exists>n. filled t = Inr n \<and> \<bar>n\<bar> \<le> 3000"
proof -
  define a where "a = bar_length * current_step t"
  define x :: rat where "x = of_int \<bar>a\<bar> / of_int \<bar>total_steps t\<bar>"
  have a: "\<bar>a\<bar> \<le> 3000 * \<bar>total_steps t\<bar>"
    using assms(3) by (simp add: a_def bar_length_def abs_mult)
  then have a128: "\<bar>a\<bar> \<le> 2 ^ 128" using assms(2) by simp
  have bpos: "(0::rat) < of_int \<bar>total_steps t\<bar>" using assms(1) by simp
  have x0: "0 \<le> x" by (simp add: x_def)
  have "rat_of_int \<bar>a\<bar> \<le> of_int (3000 * \<bar>total_steps t\<bar>)" using a by (simp only: of_int_le_iff)
  then have "rat_of_int \<bar>a\<bar> \<le> 3000 * of_int \<bar>total_steps t\<bar>" by simp
  then have "x \<le> 3000" using bpos unfolding x_def by (simp only: pos_divide_le_eq)
  then have xa: "x \<le> of_int 3000 * 2 powi 0" by simp
  have y: "nearest_double x \<le> of_int 3000 * 2 powi 0"
  proof (cases "x = 0")
    case True
    then show ?thesis by (simp add: nearest_double_def)
  next
    case False
    with x0 have pos: "0 < x" by simp
    have lt: "x < 2 powi (0 + 53)" using xa by simp
    show ?thesis by (rule nearest_double_grid_le[OF pos ulp_exp_le[OF pos lt] xa]) simp
  qed
  have y0: "0 \<le> nearest_double x" by (rule nearest_double_nonneg[OF x0])
  have "\<lfloor>nearest_double x\<rfloor> \<le> 3000"
  proof -
    have "nearest_double x \<le> of_int 3000" using y by simp
    then have "\<lfloor>nearest_double x\<rfloor> \<le> \<lfloor>rat_of_int 3000\<rfloor>" by (rule floor_mono)
    then show ?thesis by (simp only: floor_of_int)
  qed
  moreover have "0 \<le> \<lfloor>nearest_double x\<rfloor>" using y0 by simp
  ultimately have fl: "\<bar>\<lfloor>nearest_double x\<rfloor>\<bar> \<le> 3000" by simp
  from int_truediv_in_range[OF assms(1) of_int_le_DBL_MAX[OF a128]]
  have "int_truediv a (total_steps t) = Inr (Finite ((a < 0) \<noteq> (total_steps t < 0)) (nearest_double x))"
    by (simp add: x_def)
  then show ?thesis using fl by (simp add: filled_def a_def)
qed


lemma line_in_range:
  assumes "total_steps t \<noteq> 0" and "\<bar>total_steps t\<bar> < 2 ^ 58"
    and "\<bar>current_step t\<bar> \<le> 100 * \<bar>total_steps t\<bar>"
  shows "\<exists>l. line now t = Inr l"
proof -
  have cs: "rat_of_int \<bar>current_step t\<bar> \<le> DBL_MAX" by (rule of_int_le_DBL_MAX) (use assms(2,3) in simp)
  have rem: "rat_of_int \<bar>total_steps t - current_step t\<bar> \<le> DBL_MAX"
    by (rule of_int_le_DBL_MAX) (use assms(2,3) in simp)
  from percent_in_range[OF assms(1) cs] obtain pc where pc: "percent t = Inr pc" by blast
  have "\<exists>eta. eta_str (float_sub now (start_time t)) t = Inr eta"
  proof (cases "0 < current_step t")
    case True
    from eta_str_in_range[OF True cs rem] show ?thesis by blast
  next
    case False
    then show ?thesis by (simp add: eta_str_nonpositive)
  qed
  then obtain eta where eta: "eta_str (float_sub now (start_time t)) t = Inr eta" by blast
  from filled_in_range[OF assms] obtain n where n: "filled t = Inr n" "\<bar>n\<bar> \<le> 3000"
    by blast
  have n61: "\<bar>n\<bar> \<le> 2 ^ 61" using n(2) by simp
  have ts: "rat_of_int \<bar>total_steps t\<bar> \<le> DBL_MAX" by (rule of_int_le_DBL_MAX) (use assms(2) in simp)
  from pc eta n bar_in_range[OF n61] str_int_in_range[OF cs] str_int_in_range[OF ts]
  show ?thesis by (simp add: line_def)
qed

subsection \<open>Calls of \<open>update\<close>\<close>

lemma step_to_simps [simp]:
  "total_steps (step_to step t) = total_steps t"
  "description (step_to step t) = description t"
  "start_time (step_to step t) = start_time t"
  "current_step (step_to (Some k) t) = k"
  "current_step (step_to None t) = current_step t + 1"
  by (simp_all add: step_to_def split: option.splits)

lemma update_error:
  assumes "fst (update step now w) = Inl e"
  shows "e \<noteq> ZeroDivisionError"
  using assms by (simp add: update_def display_error)

lemma update_zero:
  "total_steps (trk w) = 0 \<Longrightarrow> update step now w = (Inr (), w\<lparr>trk := step_to step (trk w)\<rparr>)"
  by (simp add: update_def display_zero)

lemma update_raises:
  "total_steps (trk w) \<noteq> 0 \<Longrightarrow> line now (step_to step (trk w)) = Inl e \<Longrightarrow>
   update step now w = (Inl e, w\<lparr>trk := step_to step (trk w)\<rparr>)"
  by (simp add: update_def display_raises)

lemma update_renders:
  "total_steps (trk w) \<noteq> 0 \<Longrightarrow> line now (step_to step (trk w)) = Inr l \<Longrightarrow>
   update step now w =
     (Inr (), \<lparr>trk = step_to step (trk w),
               stdout = stdout w @ [Write l, Flush] @
                 (if total_steps (trk w) \<le> current_step (step_to step (trk w))
                  then [Write [LF]] else [])\<rparr>)"
  by (simp add: update_def display_renders)

lemma line_starts_with_CR:
  assumes "line now t = Inr l"
  shows "\<exists>rest. l = CR # rest"
  using assms by (auto simp: line_def bnd_Inr_iff Let_def render_line_def)

subsection \<open>Values of the float operations at exact arguments\<close>

lemma round_double_of_int:
  assumes "0 \<le> n" and "n < 2 ^ 53"
  shows "round_double (of_int n) = Some (of_int n)"
proof -
  have "\<bar>n\<bar> \<le> 2 ^ 128" using assms by simp
  from of_int_le_DBL_MAX[OF this] assms(1) have "rat_of_int n \<le> DBL_MAX" by simp
  then have "round_double (of_int n) = Some (nearest_double (of_int n))"
    using assms(1) by (intro round_double_in_range) simp_all
  then show ?thesis using nearest_double_of_int[OF assms] by simp
qed

lemma int_truediv_exact:
  assumes "b \<noteq> 0" and "\<bar>a\<bar> = n * \<bar>b\<bar>" and "n < 2 ^ 53"
  shows "int_truediv a b = Inr (Finite ((a < 0) \<noteq> (b < 0)) (of_int n))"
proof -
  have bpos: "0 < \<bar>b\<bar>" using assms(1) by simp
  have "0 \<le> n * \<bar>b\<bar>" using assms(2) by (metis abs_ge_zero)
  then have n0: "0 \<le> n" using bpos by (simp add: zero_le_mult_iff)
  have "rat_of_int \<bar>a\<bar> / of_int \<bar>b\<bar> = of_int n" using assms(1,2) by simp
  then show ?thesis using round_double_of_int[OF n0 assms(3)] assms(1)
    by (simp add: int_truediv_def)
qed

lemma float_mul_int_exact:
  assumes "0 \<le> m" and "\<bar>n\<bar> < 2 ^ 53" and "m * \<bar>n\<bar> < 2 ^ 53"
  shows "float_mul_int (Finite s (of_int m)) n = Inr (Finite (s \<noteq> (n < 0)) (of_int (m * \<bar>n\<bar>)))"
proof -
  have "0 \<le> m * \<bar>n\<bar>" using assms(1) by simp
  from round_double_of_int[OF this assms(3)] float_of_int_small[OF assms(2)]
  show ?thesis by (simp add: float_mul_int_def round_signed_def)
qed

lemma round_half_even_near:
  assumes "\<bar>z - of_int N\<bar> < 1 / 2"
  shows "round_half_even z = N"
proof (cases "of_int N \<le> z")
  case True
  with assms have "z < of_int N + 1" by simp
  with True have "\<lfloor>z\<rfloor> = N" by (simp add: floor_unique)
  with assms True show ?thesis by (simp add: round_half_even_def)
next
  case False
  with assms have "of_int (N - 1) \<le> z" "z < of_int (N - 1) + 1" by simp_all
  then have "\<lfloor>z\<rfloor> = N - 1" by (rule floor_unique)
  with assms False show ?thesis by (auto simp: round_half_even_def Let_def)
qed

lemma ilog2_eq:
  assumes "2 powi e \<le> x" and "x < 2 powi (e + 1)"
  shows "ilog2 x = e"
proof -
  have pos: "0 < x" by (rule less_le_trans[OF _ assms(1)]) (simp add: zero_less_power_int)
  from ilog2_ge[OF pos assms(1)] ilog2_less[OF pos assms(2)] show ?thesis by simp
qed

subsection \<open>The fill count on the range \<open>0 .. total_steps\<close>\<close>

lemma floor_nearest_double:
  fixes a b :: int
  assumes "0 \<le> a" and "0 < b" and "b \<le> 2 ^ 48" and "a \<le> 30 * b"
  shows "\<lfloor>nearest_double (of_int a / of_int b)\<rfloor> = a div b"
proof -
  define x :: rat where "x = of_int a / of_int b"
  define k where "k = a div b"
  have bpos: "(0::rat) < of_int b" using assms(2) by simp
  have x0: "0 \<le> x" using assms(1,2) by (simp add: x_def)
  have k_floor: "k = \<lfloor>x\<rfloor>" by (simp add: k_def x_def floor_divide_of_int_eq)
  have k0: "0 \<le> k" using x0 by (simp add: k_floor)
  have "rat_of_int a \<le> of_int (30 * b)" using assms(4) by (simp only: of_int_le_iff)
  then have x30: "x \<le> 30" using bpos by (simp add: x_def pos_divide_le_eq)
  then have k30: "k \<le> 30" by (simp add: k_floor floor_le_iff) 
  have kx: "of_int k \<le> x" by (simp add: k_floor)
  have "a mod b \<le> b - 1" using assms(2) pos_mod_bound[of b a] by simp
  moreover have "a = k * b + a mod b" by (simp add: k_def)
  ultimately have "a \<le> k * b + (b - 1)" by linarith
  then have "rat_of_int a \<le> of_int (k * b + (b - 1))" by (simp only: of_int_le_iff)
  then have "x \<le> (of_int k * of_int b + (of_int b - 1)) / of_int b"
    using bpos by (simp add: x_def divide_right_mono)
  also have "\<dots> = of_int k + 1 - 1 / of_int b" using bpos by (simp add: field_simps)
  finally have xk: "x \<le> of_int k + 1 - 1 / of_int b" .
  have "rat_of_int b \<le> of_int (2 ^ 48)" using assms(3) by (simp only: of_int_le_iff)
  then have "rat_of_int b \<le> 2 ^ 48" by simp
  then have "1 / 2 ^ 48 \<le> 1 / rat_of_int b" using bpos by (intro divide_left_mono) simp_all
  with xk have xg: "x \<le> of_int k + 1 - 1 / 2 ^ 48" by simp
  have up_eq: "of_int ((k + 1) * 2 ^ 48 - 1) * 2 powi (- 48) = (of_int k + 1 - 1 / 2 ^ 48 :: rat)"
    by (simp add: power_int_minus field_simps)
  have lo_eq: "of_int (k * 2 ^ 48) * 2 powi (- 48) = (of_int k :: rat)"
    by (simp add: power_int_minus field_simps)
  have y: "of_int k \<le> nearest_double x \<and> nearest_double x \<le> of_int k + 1 - 1 / 2 ^ 48"
  proof (cases "x = 0")
    case True
    then have "k = 0" by (simp add: k_floor)
    with True show ?thesis by (simp add: nearest_double_def)
  next
    case False
    with x0 have pos: "0 < x" by simp
    have lt: "x < 2 powi (- 48 + 53)" using x30 by simp
    have u: "ulp_exp x \<le> - 48" by (rule ulp_exp_le[OF pos lt]) simp
    have "of_int (k * 2 ^ 48) * 2 powi (- 48) \<le> nearest_double x"
      by (rule nearest_double_grid_ge[OF pos u]) (use kx lo_eq in simp)
    moreover have "nearest_double x \<le> of_int ((k + 1) * 2 ^ 48 - 1) * 2 powi (- 48)"
      by (rule nearest_double_grid_le[OF pos u]) (use xg up_eq in simp)
    ultimately show ?thesis using lo_eq up_eq by simp
  qed
  then have "of_int k \<le> nearest_double x" and "nearest_double x < of_int k + 1" by simp_all
  then have "\<lfloor>nearest_double x\<rfloor> = k" by (rule floor_unique)
  then show ?thesis by (simp add: x_def k_def)
qed

lemma filled_floor:
  assumes "0 < total_steps t" and "total_steps t \<le> 2 ^ 48"
    and "0 \<le> current_step t" and "current_step t \<le> total_steps t"
  shows "filled t = Inr ((30 * current_step t) div total_steps t)"
proof -
  define a where "a = 30 * current_step t"
  have a0: "0 \<le> a" and a30: "a \<le> 30 * total_steps t" using assms(3,4) by (simp_all add: a_def)
  have "\<bar>a\<bar> \<le> 2 ^ 128" using a0 a30 assms(2) by simp
  from int_truediv_in_range[OF _ of_int_le_DBL_MAX[OF this], of "total_steps t"] assms(1) a0
  have "int_truediv a (total_steps t)
        = Inr (Finite False (nearest_double (of_int a / of_int (total_steps t))))"
    by simp
  then show ?thesis
    using floor_nearest_double[OF a0 assms(1,2) a30]
    by (simp add: filled_def bar_length_def a_def)
qed

lemma bar_of_floor:
  assumes "0 \<le> n" and "n \<le> 30"
  shows "bar n = Inr (replicate (nat n) FULL_BLOCK @ replicate (nat (30 - n)) LIGHT_SHADE)"
  using bar_in_range[of n] assms by (simp add: bar_length_def)

subsection \<open>The forced update to \<open>total_steps\<close>\<close>

lemma int_truediv_self:
  assumes "a \<noteq> 0"
  shows "int_truediv a a = Inr (Finite False 1)"
  using int_truediv_exact[of a a 1] assms by simp

lemma percent_complete:
  assumes "total_steps t \<noteq> 0" and "current_step t = total_steps t"
  shows "percent t = Inr (Finite False 100)"
  using int_truediv_self[OF assms(1)] float_mul_int_exact[of 1 100 False] assms(2)
  by (simp add: percent_def)

lemma filled_complete:
  assumes "total_steps t \<noteq> 0" and "current_step t = total_steps t"
  shows "filled t = Inr 30"
proof -
  have "int_truediv (30 * total_steps t) (total_steps t) = Inr (Finite False 30)"
    using int_truediv_exact[of "total_steps t" "30 * total_steps t" 30] assms(1)
    by (auto simp: abs_mult zero_less_mult_iff)
  then show ?thesis using assms(2) by (simp add: filled_def bar_length_def)
qed

lemma line_complete:
  assumes "total_steps t \<noteq> 0" and "current_step t = total_steps t"
    and "of_int \<bar>total_steps t\<bar> \<le> DBL_MAX"
  shows "\<exists>eta. line now t =
           Inr (render_line (description t) (replicate 30 FULL_BLOCK) (Finite False 100)
                  (decimal (total_steps t)) (decimal (total_steps t)) eta)"
proof -
  have "\<exists>eta. eta_str (float_sub now (start_time t)) t = Inr eta"
  proof (cases "0 < current_step t")
    case True
    have "rat_of_int \<bar>total_steps t - current_step t\<bar> \<le> DBL_MAX"
      using assms(2) of_int_le_DBL_MAX[of 0] by simp
    from eta_str_in_range[OF True _ this] assms(2,3) show ?thesis by auto
  next
    case False
    then show ?thesis by (simp add: eta_str_nonpositive)
  qed
  then obtain eta where "eta_str (float_sub now (start_time t)) t = Inr eta" by blast
  then show ?thesis
    using percent_complete[OF assms(1,2)] filled_complete[OF assms(1,2)] bar_of_floor[of 30] assms(2)
      str_int_in_range[OF assms(3)]
    by (auto simp: line_def)
qed

lemma update_to_total:
  assumes "total_steps (trk w) \<noteq> 0" and "of_int \<bar>total_steps (trk w)\<bar> \<le> DBL_MAX"
  shows "\<exists>l. update (Some (total_steps (trk w))) now w =
           (Inr (), \<lparr>trk = (trk w)\<lparr>current_step := total_steps (trk w)\<rparr>,
                     stdout = stdout w @ [Write l, Flush, Write [LF]]\<rparr>)"
proof -
  define t where "t = step_to (Some (total_steps (trk w))) (trk w)"
  have t: "total_steps t \<noteq> 0" "current_step t = total_steps t" "of_int \<bar>total_steps t\<bar> \<le> DBL_MAX"
    using assms by (simp_all add: t_def)
  from line_complete[OF t] obtain l where l: "line now t = Inr l" by blast
  from update_renders[OF assms(1) l[unfolded t_def]] show ?thesis
    by (auto simp: step_to_def)
qed

section \<open>The tracker's fields under \<open>update\<close>\<close>

text \<open>
  C6. For every tracker and every integer \<open>k\<close> (zero, negative or above
  \<open>total_steps\<close>), \<open>update(step=k)\<close> leaves \<open>current_step\<close> equal to \<open>k\<close>, whatever
  it was before and whatever the render does afterwards: no bound is enforced.
\<close>

theorem update_sets_current_step:
  "current_step (trk (snd (update (Some k) now w))) = k"
  by (simp add: update_trk)

text \<open>
  C10. A call of \<open>update\<close>, with or without an explicit step, leaves \<open>total_steps\<close>,
  \<open>description\<close> and \<open>start_time\<close> as they were, and the render routine changes no
  field of the tracker at all: \<open>current_step\<close> is the only field that is ever assigned.
\<close>

theorem update_frame:
  "total_steps (trk (snd (update step now w))) = total_steps (trk w) \<and>
   description (trk (snd (update step now w))) = description (trk w) \<and>
   start_time (trk (snd (update step now w))) = start_time (trk w) \<and>
   trk (snd (display now w)) = trk w"
  by (simp add: update_trk display_trk)

text \<open>
  C7. With \<open>total_steps = 0\<close> a call of \<open>update\<close>, with or without an explicit step,
  returns normally and writes nothing: the standard output is what it was. The render
  routine returns before it divides by \<open>total_steps\<close>, and no call of \<open>update\<close> or of the
  render routine, on any tracker, raises \<open>ZeroDivisionError\<close>.
\<close>

theorem zero_total_no_output:
  "(total_steps (trk w) = 0 \<longrightarrow>
      update step now w = (Inr (), w\<lparr>trk := step_to step (trk w)\<rparr>) \<and>
      stdout (snd (update step now w)) = stdout w) \<and>
   fst (update step now w) \<noteq> Inl ZeroDivisionError \<and>
   fst (display now w) \<noteq> Inl ZeroDivisionError"
proof -
  have "fst (update step now w) \<noteq> Inl ZeroDivisionError"
    using update_error[of step now w ZeroDivisionError] by auto
  moreover have "fst (display now w) \<noteq> Inl ZeroDivisionError"
    using display_error[of now w ZeroDivisionError] by auto
  ultimately show ?thesis by (simp add: update_def display_zero)
qed

theorem zero_total_no_output_witness:
  "total_steps (trk \<lparr>trk = init 0 (ascii ''Progress'') (Finite False 0), stdout = []\<rparr>) = 0 \<and>
   update (Some 5) (Finite False 1) \<lparr>trk = init 0 (ascii ''Progress'') (Finite False 0), stdout = []\<rparr>
     = (Inr (), \<lparr>trk = (init 0 (ascii ''Progress'') (Finite False 0))\<lparr>current_step := 5\<rparr>, stdout = []\<rparr>) \<and>
   update None (Finite False 1) \<lparr>trk = init 0 (ascii ''Progress'') (Finite False 0), stdout = []\<rparr>
     = (Inr (), \<lparr>trk = (init 0 (ascii ''Progress'') (Finite False 0))\<lparr>current_step := 1\<rparr>, stdout = []\<rparr>)"
  using zero_total_no_output[of "\<lparr>trk = init 0 (ascii ''Progress'') (Finite False 0), stdout = []\<rparr>" "Some 5" "Finite False 1"]
        zero_total_no_output[of "\<lparr>trk = init 0 (ascii ''Progress'') (Finite False 0), stdout = []\<rparr>" None "Finite False 1"]
  by (simp add: init_def step_to_def)

section \<open>What a render writes\<close>

text \<open>
  C4. For a tracker with \<open>total_steps > 0\<close>, the render routine either raises before it
  writes anything, or writes one line that starts with a carriage return and flushes;
  that line is followed by a written line feed when \<open>current_step >= total_steps\<close>, and
  by nothing when \<open>current_step < total_steps\<close>. The render does take place when
  \<open>total_steps\<close> is below \<open>2 ^ 58\<close> and \<open>current_step\<close> is at most a hundred times
  \<open>total_steps\<close> in magnitude, which keeps the bar within 3030 glyphs.
\<close>

theorem completion_newline:
  "0 < total_steps (trk w) \<longrightarrow>
     ((\<exists>e. line now (trk w) = Inl e \<and> display now w = (Inl e, w)) \<or>
      (\<exists>l rest. line now (trk w) = Inr l \<and> l = CR # rest \<and>
         (total_steps (trk w) \<le> current_step (trk w) \<longrightarrow>
            display now w = (Inr (), w\<lparr>stdout := stdout w @ [Write l, Flush, Write [LF]]\<rparr>)) \<and>
         (current_step (trk w) < total_steps (trk w) \<longrightarrow>
            display now w = (Inr (), w\<lparr>stdout := stdout w @ [Write l, Flush]\<rparr>)))) \<and>
     (total_steps (trk w) < 2 ^ 58 \<and> \<bar>current_step (trk w)\<bar> \<le> 100 * total_steps (trk w) \<longrightarrow>
        (\<exists>l. line now (trk w) = Inr l))"
proof
  assume pos: "0 < total_steps (trk w)"
  then have nz: "total_steps (trk w) \<noteq> 0" by simp
  have first: "(\<exists>e. line now (trk w) = Inl e \<and> display now w = (Inl e, w)) \<or>
      (\<exists>l rest. line now (trk w) = Inr l \<and> l = CR # rest \<and>
         (total_steps (trk w) \<le> current_step (trk w) \<longrightarrow>
            display now w = (Inr (), w\<lparr>stdout := stdout w @ [Write l, Flush, Write [LF]]\<rparr>)) \<and>
         (current_step (trk w) < total_steps (trk w) \<longrightarrow>
            display now w = (Inr (), w\<lparr>stdout := stdout w @ [Write l, Flush]\<rparr>)))"
  proof (cases "line now (trk w)")
    case (Inl e)
    then show ?thesis using display_raises[OF nz Inl] by blast
  next
    case (Inr l)
    from line_starts_with_CR[OF Inr] obtain rest where "l = CR # rest" by blast
    then show ?thesis using Inr display_renders[OF nz Inr] by auto
  qed
  have second: "total_steps (trk w) < 2 ^ 58 \<and> \<bar>current_step (trk w)\<bar> \<le> 100 * total_steps (trk w) \<longrightarrow>
        (\<exists>l. line now (trk w) = Inr l)"
    using line_in_range[OF nz, of now] pos by auto
  from first second show "((\<exists>e. line now (trk w) = Inl e \<and> display now w = (Inl e, w)) \<or>
      (\<exists>l rest. line now (trk w) = Inr l \<and> l = CR # rest \<and>
         (total_steps (trk w) \<le> current_step (trk w) \<longrightarrow>
            display now w = (Inr (), w\<lparr>stdout := stdout w @ [Write l, Flush, Write [LF]]\<rparr>)) \<and>
         (current_step (trk w) < total_steps (trk w) \<longrightarrow>
            display now w = (Inr (), w\<lparr>stdout := stdout w @ [Write l, Flush]\<rparr>)))) \<and>
     (total_steps (trk w) < 2 ^ 58 \<and> \<bar>current_step (trk w)\<bar> \<le> 100 * total_steps (trk w) \<longrightarrow>
        (\<exists>l. line now (trk w) = Inr l))" by blast
qed

theorem completion_newline_witness:
  "(\<exists>l. display (Finite False 9)
          \<lparr>trk = \<lparr>total_steps = 4, current_step = 4, description = ascii ''Progress'',
                   start_time = Finite False 0\<rparr>, stdout = []\<rparr>
        = (Inr (), \<lparr>trk = \<lparr>total_steps = 4, current_step = 4, description = ascii ''Progress'',
                   start_time = Finite False 0\<rparr>, stdout = [Write l, Flush, Write [LF]]\<rparr>)) \<and>
   (\<exists>l. display (Finite False 9)
          \<lparr>trk = \<lparr>total_steps = 4, current_step = 3, description = ascii ''Progress'',
                   start_time = Finite False 0\<rparr>, stdout = []\<rparr>
        = (Inr (), \<lparr>trk = \<lparr>total_steps = 4, current_step = 3, description = ascii ''Progress'',
                   start_time = Finite False 0\<rparr>, stdout = [Write l, Flush]\<rparr>))"
  using completion_newline[of "\<lparr>trk = \<lparr>total_steps = 4, current_step = 4,
            description = ascii ''Progress'', start_time = Finite False 0\<rparr>, stdout = []\<rparr>" "Finite False 9"]
        completion_newline[of "\<lparr>trk = \<lparr>total_steps = 4, current_step = 3,
            description = ascii ''Progress'', start_time = Finite False 0\<rparr>, stdout = []\<rparr>" "Finite False 9"]
  by auto

lemma pad_digits_one:
  assumes "n < 10"
  shows "pad_digits (Suc 0) n = [48 + n]"
  using assms by (simp add: pad_digits_def digits.simps)

lemma format_f_one_decimal:
  "\<exists>whole d. d < 10 \<and> format_f 1 (Finite s m) = whole @ ascii ''.'' @ [48 + d]"
proof -
  define k where "k = nat (round_half_even (m * 10 ^ 1))"
  have "format_f 1 (Finite s m) =
          ((if s then ascii ''-'' else []) @ digits (k div 10)) @ ascii ''.'' @ [48 + k mod 10]"
    by (simp add: k_def Let_def pad_digits_one)
  moreover have "k mod 10 < 10" by simp
  ultimately show ?thesis by blast
qed

lemma line_shape:
  assumes "line now t = Inr l"
  shows "\<exists>pc n b eta. percent t = Inr pc \<and> filled t = Inr n \<and> bar n = Inr b \<and>
           eta_str (float_sub now (start_time t)) t = Inr eta \<and>
           l = render_line (description t) b pc (decimal (current_step t))
                 (decimal (total_steps t)) eta"
  using assms by (auto simp: line_def bnd_Inr_iff Let_def dest!: str_int_Inr)

lemma eta_str_shape:
  assumes "0 < current_step t" and "eta_str el t = Inr eta"
  shows "\<exists>avg est minutes.
           float_truediv_int el (current_step t) = Inr avg \<and>
           float_mul_int avg (total_steps t - current_step t) = Inr est \<and>
           float_truediv_int est 60 = Inr minutes \<and>
           eta = ascii '' | ETA: '' @ format_f 1 minutes @ ascii ''min''"
  using assms by (auto simp: eta_str_def bnd_Inr_iff Let_def)

lemma percent_half:
  "percent \<lparr>total_steps = 100, current_step = 50, description = d, start_time = t0\<rparr>
   = Inr (Finite False 50)"
proof -
  have "rat_of_int \<bar>50\<bar> \<le> DBL_MAX" by (rule of_int_le_DBL_MAX) simp
  from int_truediv_in_range[OF _ this, of 100]
  have "int_truediv 50 100 = Inr (Finite False (nearest_double (1 / 2)))" by simp
  moreover have "nearest_double (1 / 2) = 1 / 2"
    using nearest_double_exact[of 1 "- 1"] by simp
  moreover have "float_mul_int (Finite False (1 / 2)) 100 = Inr (Finite False 50)"
    using float_of_int_small[of 100] round_double_of_int[of 50]
    by (simp add: float_mul_int_def round_signed_def)
  ultimately show ?thesis by (simp add: percent_def)
qed

lemma render_line_half:
  "render_line d (replicate 15 FULL_BLOCK @ replicate 15 LIGHT_SHADE) (Finite False 50)
     (decimal 50) (decimal 100) eta
   = [CR] @ d @ ascii '': ['' @ replicate 15 FULL_BLOCK @ replicate 15 LIGHT_SHADE @
     ascii ''] 50% (50/100)'' @ eta"
  by (simp add: render_line_def decimal_def digits.simps ascii_def round_half_even_def)

text \<open>
  C8. For a render with \<open>total_steps > 0\<close>, the written line is the bar, the percentage
  and the pair of counters, followed by the ETA suffix: nothing at all when
  \<open>current_step = 0\<close>; and when \<open>current_step > 0\<close> the text \<open>" | ETA: "\<close>, the value
  \<open>((elapsed / current_step) * (total_steps - current_step)) / 60\<close> formatted with
  \<open>.1f\<close> (for a finite value: digits, a point, one digit) and \<open>"min"\<close>. With
  \<open>total_steps = 100\<close>, a single \<open>update(step=50)\<close> writes \<open>50%\<close>, 15 filled glyphs of 30
  and an ETA, whatever the clock readings.
\<close>

theorem eta_suffix:
  "(0 < total_steps (trk w) \<and> fst (display now w) = Inr () \<longrightarrow>
      (\<exists>l pc n b. percent (trk w) = Inr pc \<and> filled (trk w) = Inr n \<and> bar n = Inr b \<and>
         stdout (snd (display now w)) = stdout w @ [Write l, Flush] @
           (if total_steps (trk w) \<le> current_step (trk w) then [Write [LF]] else []) \<and>
         (current_step (trk w) = 0 \<longrightarrow>
            l = render_line (description (trk w)) b pc (decimal 0) (decimal (total_steps (trk w))) []) \<and>
         (0 < current_step (trk w) \<longrightarrow>
            (\<exists>avg est minutes.
               float_truediv_int (float_sub now (start_time (trk w))) (current_step (trk w)) = Inr avg \<and>
               float_mul_int avg (total_steps (trk w) - current_step (trk w)) = Inr est \<and>
               float_truediv_int est 60 = Inr minutes \<and>
               l = render_line (description (trk w)) b pc (decimal (current_step (trk w)))
                     (decimal (total_steps (trk w)))
                     (ascii '' | ETA: '' @ format_f 1 minutes @ ascii ''min''))))) \<and>
   (\<exists>whole d. d < 10 \<and> format_f 1 (Finite s m) = whole @ ascii ''.'' @ [48 + d]) \<and>
   (\<exists>minutes.
      update (Some 50) t1 \<lparr>trk = init 100 desc t0, stdout = out\<rparr> =
        (Inr (), \<lparr>trk = \<lparr>total_steps = 100, current_step = 50, description = desc, start_time = t0\<rparr>,
                  stdout = out @ [Write ([CR] @ desc @ ascii '': ['' @ replicate 15 FULL_BLOCK @
                      replicate 15 LIGHT_SHADE @ ascii ''] 50% (50/100)'' @
                      ascii '' | ETA: '' @ format_f 1 minutes @ ascii ''min''), Flush]\<rparr>))"
proof (intro conjI impI)
  assume a: "0 < total_steps (trk w) \<and> fst (display now w) = Inr ()"
  then have nz: "total_steps (trk w) \<noteq> 0" by simp
  obtain l where l: "line now (trk w) = Inr l"
    using a display_raises[OF nz, of now] by (cases "line now (trk w)") auto
  from line_shape[OF l] obtain pc n b eta where
    sh: "percent (trk w) = Inr pc" "filled (trk w) = Inr n" "bar n = Inr b"
        "eta_str (float_sub now (start_time (trk w))) (trk w) = Inr eta"
        "l = render_line (description (trk w)) b pc (decimal (current_step (trk w)))
                     (decimal (total_steps (trk w))) eta"
    by blast
  have zero: "current_step (trk w) = 0 \<longrightarrow>
            l = render_line (description (trk w)) b pc (decimal 0) (decimal (total_steps (trk w))) []"
    using sh(4,5) by (auto simp: eta_str_nonpositive)
  have positive: "0 < current_step (trk w) \<longrightarrow>
            (\<exists>avg est minutes.
               float_truediv_int (float_sub now (start_time (trk w))) (current_step (trk w)) = Inr avg \<and>
               float_mul_int avg (total_steps (trk w) - current_step (trk w)) = Inr est \<and>
               float_truediv_int est 60 = Inr minutes \<and>
               l = render_line (description (trk w)) b pc (decimal (current_step (trk w)))
                     (decimal (total_steps (trk w)))
                     (ascii '' | ETA: '' @ format_f 1 minutes @ ascii ''min''))"
    using eta_str_shape[OF _ sh(4)] sh(5) by blast
  have out: "stdout (snd (display now w)) = stdout w @ [Write l, Flush] @
           (if total_steps (trk w) \<le> current_step (trk w) then [Write [LF]] else [])"
    by (simp add: display_renders[OF nz l])
  from sh(1,2,3) out zero positive
  show "\<exists>l pc n b. percent (trk w) = Inr pc \<and> filled (trk w) = Inr n \<and> bar n = Inr b \<and>
         stdout (snd (display now w)) = stdout w @ [Write l, Flush] @
           (if total_steps (trk w) \<le> current_step (trk w) then [Write [LF]] else []) \<and>
         (current_step (trk w) = 0 \<longrightarrow>
            l = render_line (description (trk w)) b pc (decimal 0) (decimal (total_steps (trk w))) []) \<and>
         (0 < current_step (trk w) \<longrightarrow>
            (\<exists>avg est minutes.
               float_truediv_int (float_sub now (start_time (trk w))) (current_step (trk w)) = Inr avg \<and>
               float_mul_int avg (total_steps (trk w) - current_step (trk w)) = Inr est \<and>
               float_truediv_int est 60 = Inr minutes \<and>
               l = render_line (description (trk w)) b pc (decimal (current_step (trk w)))
                     (decimal (total_steps (trk w)))
                     (ascii '' | ETA: '' @ format_f 1 minutes @ ascii ''min'')))"
    by blast
next
  show "\<exists>whole d. d < 10 \<and> format_f 1 (Finite s m) = whole @ ascii ''.'' @ [48 + d]"
    by (rule format_f_one_decimal)
next
  define t where "t = \<lparr>total_steps = 100, current_step = 50, description = desc, start_time = t0\<rparr>"
  have t: "total_steps t = 100" "current_step t = 50" "description t = desc" "start_time t = t0"
    by (simp_all add: t_def)
  have cs: "rat_of_int \<bar>current_step t\<bar> \<le> DBL_MAX" by (rule of_int_le_DBL_MAX) (simp add: t)
  have rem: "rat_of_int \<bar>total_steps t - current_step t\<bar> \<le> DBL_MAX"
    by (rule of_int_le_DBL_MAX) (simp add: t)
  from eta_str_in_range[OF _ cs rem, of "float_sub t1 t0"] obtain minutes where
    eta: "eta_str (float_sub t1 t0) t = Inr (ascii '' | ETA: '' @ format_f 1 minutes @ ascii ''min'')"
    by (auto simp: t)
  have f: "filled t = Inr 15" using filled_floor[of t] by (simp add: t)
  have b: "bar 15 = Inr (replicate 15 FULL_BLOCK @ replicate 15 LIGHT_SHADE)"
    using bar_of_floor[of 15] by simp
  have "line t1 t = Inr ([CR] @ desc @ ascii '': ['' @ replicate 15 FULL_BLOCK @
                      replicate 15 LIGHT_SHADE @ ascii ''] 50% (50/100)'' @
                      ascii '' | ETA: '' @ format_f 1 minutes @ ascii ''min'')"
    using percent_half[of desc t0] eta f b render_line_half
      str_int_in_range[OF cs] str_int_in_range[of "total_steps t"] of_int_le_DBL_MAX[of "total_steps t"]
    by (simp add: line_def t t_def[symmetric])
  then have "update (Some 50) t1 \<lparr>trk = init 100 desc t0, stdout = out\<rparr> =
        (Inr (), \<lparr>trk = \<lparr>total_steps = 100, current_step = 50, description = desc, start_time = t0\<rparr>,
                  stdout = out @ [Write ([CR] @ desc @ ascii '': ['' @ replicate 15 FULL_BLOCK @
                      replicate 15 LIGHT_SHADE @ ascii ''] 50% (50/100)'' @
                      ascii '' | ETA: '' @ format_f 1 minutes @ ascii ''min''), Flush]\<rparr>)"
    using update_renders[of "\<lparr>trk = init 100 desc t0, stdout = out\<rparr>" t1 "Some 50"]
    by (simp add: init_def step_to_def t_def)
  then show "\<exists>minutes.
      update (Some 50) t1 \<lparr>trk = init 100 desc t0, stdout = out\<rparr> =
        (Inr (), \<lparr>trk = \<lparr>total_steps = 100, current_step = 50, description = desc, start_time = t0\<rparr>,
                  stdout = out @ [Write ([CR] @ desc @ ascii '': ['' @ replicate 15 FULL_BLOCK @
                      replicate 15 LIGHT_SHADE @ ascii ''] 50% (50/100)'' @
                      ascii '' | ETA: '' @ format_f 1 minutes @ ascii ''min''), Flush]\<rparr>)"
    by blast
qed

lemma display_in_range:
  assumes "total_steps (trk w) = 0 \<or>
           \<bar>total_steps (trk w)\<bar> < 2 ^ 58 \<and>
           \<bar>current_step (trk w)\<bar> \<le> 100 * \<bar>total_steps (trk w)\<bar>"
  shows "fst (display now w) = Inr ()"
proof (cases "total_steps (trk w) = 0")
  case True
  then show ?thesis by (simp add: display_zero)
next
  case False
  with assms line_in_range[OF False, of now] obtain l where "line now (trk w) = Inr l" by auto
  from display_renders[OF False this] show ?thesis by simp
qed

theorem eta_suffix_witness:
  "(\<exists>l pc b minutes.
      0 < total_steps (trk \<lparr>trk = \<lparr>total_steps = 100, current_step = 50,
            description = ascii ''Progress'', start_time = Finite False 0\<rparr>, stdout = []\<rparr>) \<and>
      fst (display (Finite False 30) \<lparr>trk = \<lparr>total_steps = 100, current_step = 50,
            description = ascii ''Progress'', start_time = Finite False 0\<rparr>, stdout = []\<rparr>) = Inr () \<and>
      stdout (snd (display (Finite False 30) \<lparr>trk = \<lparr>total_steps = 100, current_step = 50,
            description = ascii ''Progress'', start_time = Finite False 0\<rparr>, stdout = []\<rparr>))
        = [Write l, Flush] \<and>
      l = render_line (ascii ''Progress'') b pc (decimal 50) (decimal 100)
            (ascii '' | ETA: '' @ format_f 1 minutes @ ascii ''min'')) \<and>
   (\<exists>l pc b.
      fst (display (Finite False 30) \<lparr>trk = \<lparr>total_steps = 100, current_step = 0,
            description = ascii ''Progress'', start_time = Finite False 0\<rparr>, stdout = []\<rparr>) = Inr () \<and>
      stdout (snd (display (Finite False 30) \<lparr>trk = \<lparr>total_steps = 100, current_step = 0,
            description = ascii ''Progress'', start_time = Finite False 0\<rparr>, stdout = []\<rparr>))
        = [Write l, Flush] \<and>
      l = render_line (ascii ''Progress'') b pc (decimal 0) (decimal 100) [])"
proof -
  define W where "W = \<lparr>trk = \<lparr>total_steps = 100, current_step = 50,
            description = ascii ''Progress'', start_time = Finite False 0\<rparr>, stdout = []\<rparr>"
  define W0 where "W0 = \<lparr>trk = \<lparr>total_steps = 100, current_step = 0,
            description = ascii ''Progress'', start_time = Finite False 0\<rparr>, stdout = []\<rparr>"
  have ok: "fst (display (Finite False 30) W) = Inr ()"
    by (rule display_in_range) (simp add: W_def)
  have ok0: "fst (display (Finite False 30) W0) = Inr ()"
    by (rule display_in_range) (simp add: W0_def)
  have sel: "total_steps (trk W) = 100" "current_step (trk W) = 50" "stdout W = []"
    "description (trk W) = ascii ''Progress''"
    "total_steps (trk W0) = 100" "current_step (trk W0) = 0" "stdout W0 = []"
    "description (trk W0) = ascii ''Progress''"
    by (simp_all add: W_def W0_def)
  have pos: "0 < total_steps (trk W)" and pos0: "0 < total_steps (trk W0)" by (simp_all add: sel)
  from eta_suffix[of W "Finite False 30", THEN conjunct1, rule_format, OF conjI[OF pos ok]]
  obtain l pc n b where
    out: "stdout (snd (display (Finite False 30) W)) = stdout W @ [Write l, Flush] @
           (if total_steps (trk W) \<le> current_step (trk W) then [Write [LF]] else [])"
    and eta: "0 < current_step (trk W) \<longrightarrow>
            (\<exists>avg est minutes.
               float_truediv_int (float_sub (Finite False 30) (start_time (trk W))) (current_step (trk W)) = Inr avg \<and>
               float_mul_int avg (total_steps (trk W) - current_step (trk W)) = Inr est \<and>
               float_truediv_int est 60 = Inr minutes \<and>
               l = render_line (description (trk W)) b pc (decimal (current_step (trk W)))
                     (decimal (total_steps (trk W)))
                     (ascii '' | ETA: '' @ format_f 1 minutes @ ascii ''min''))"
    by blast
  from eta obtain minutes where
    l: "l = render_line (ascii ''Progress'') b pc (decimal 50) (decimal 100)
             (ascii '' | ETA: '' @ format_f 1 minutes @ ascii ''min'')"
    unfolding sel by auto
  have part1: "\<exists>l pc b minutes.
      0 < total_steps (trk W) \<and> fst (display (Finite False 30) W) = Inr () \<and>
      stdout (snd (display (Finite False 30) W)) = [Write l, Flush] \<and>
      l = render_line (ascii ''Progress'') b pc (decimal 50) (decimal 100)
            (ascii '' | ETA: '' @ format_f 1 minutes @ ascii ''min'')"
    using pos ok out[unfolded sel] l by auto
  from eta_suffix[of W0 "Finite False 30", THEN conjunct1, rule_format, OF conjI[OF pos0 ok0]]
  obtain l0 pc0 n0 b0 where
    out0: "stdout (snd (display (Finite False 30) W0)) = stdout W0 @ [Write l0, Flush] @
           (if total_steps (trk W0) \<le> current_step (trk W0) then [Write [LF]] else [])"
    and eta0: "current_step (trk W0) = 0 \<longrightarrow>
            l0 = render_line (description (trk W0)) b0 pc0 (decimal 0) (decimal (total_steps (trk W0))) []"
    by blast
  have part2: "\<exists>l pc b.
      fst (display (Finite False 30) W0) = Inr () \<and>
      stdout (snd (display (Finite False 30) W0)) = [Write l, Flush] \<and>
      l = render_line (ascii ''Progress'') b pc (decimal 0) (decimal 100) []"
    using ok0 out0[unfolded sel] eta0[unfolded sel] by auto
  from part1 part2 show ?thesis unfolding W_def W0_def by blast
qed

section \<open>Sequences of calls\<close>

lemma run_updates_increment:
  "map (\<lambda>rw. current_step (trk (snd rw))) (run_updates (map (Pair None) nows) w)
   = map (\<lambda>i. current_step (trk w) + int i) [1..<Suc (length nows)]"
proof (induction nows arbitrary: w)
  case Nil
  then show ?case by simp
next
  case (Cons t nows)
  have "[1..<Suc (length (t # nows))] = 1 # map Suc [1..<Suc (length nows)]"
    by (simp add: upt_conv_Cons map_Suc_upt del: upt_Suc)
  then show ?case
    by (simp add: Cons.IH update_trk Let_def o_def add.assoc del: upt_Suc)
qed

lemma update_in_range_renders:
  assumes "total_steps (trk w) \<noteq> 0" and "\<bar>total_steps (trk w)\<bar> < 2 ^ 58"
    and "\<bar>current_step (step_to step (trk w))\<bar> \<le> 100 * \<bar>total_steps (trk w)\<bar>"
  shows "\<exists>l. update step now w =
           (Inr (), \<lparr>trk = step_to step (trk w),
                     stdout = stdout w @ [Write l, Flush] @
                       (if total_steps (trk w) \<le> current_step (step_to step (trk w))
                        then [Write [LF]] else [])\<rparr>)"
proof -
  from line_in_range[of "step_to step (trk w)" now] assms
  obtain l where "line now (step_to step (trk w)) = Inr l" by auto
  from update_renders[OF assms(1) this] show ?thesis by blast
qed

text \<open>
  C5. From a fresh tracker (\<open>current_step = 0\<close>), whatever \<open>total_steps\<close> is, the values
  of \<open>current_step\<close> after each of \<open>n\<close> calls of \<open>update()\<close> without a step are
  \<open>1, 2, ..., n\<close>: after \<open>n\<close> calls it is \<open>n\<close>. With \<open>total_steps = 4\<close>, the four calls
  return normally, leave \<open>current_step\<close> at 1, 2, 3 and 4, each writes one line and
  flushes, and only the fourth also writes the line feed.
\<close>

theorem updates_count:
  "map (\<lambda>rw. current_step (trk (snd rw)))
       (run_updates (map (Pair None) nows) \<lparr>trk = init tot desc t0, stdout = out\<rparr>)
     = map int [1..<Suc (length nows)] \<and>
   (\<exists>l1 l2 l3 l4.
      run_updates [(None, t1), (None, t2), (None, t3), (None, t4)]
                  \<lparr>trk = init 4 desc t0, stdout = out\<rparr> =
        [(Inr (), \<lparr>trk = (init 4 desc t0)\<lparr>current_step := 1\<rparr>,
                    stdout = out @ [Write l1, Flush]\<rparr>),
         (Inr (), \<lparr>trk = (init 4 desc t0)\<lparr>current_step := 2\<rparr>,
                    stdout = out @ [Write l1, Flush, Write l2, Flush]\<rparr>),
         (Inr (), \<lparr>trk = (init 4 desc t0)\<lparr>current_step := 3\<rparr>,
                    stdout = out @ [Write l1, Flush, Write l2, Flush, Write l3, Flush]\<rparr>),
         (Inr (), \<lparr>trk = (init 4 desc t0)\<lparr>current_step := 4\<rparr>,
                    stdout = out @ [Write l1, Flush, Write l2, Flush, Write l3, Flush,
                                    Write l4, Flush, Write [LF]]\<rparr>)])"
proof
  show "map (\<lambda>rw. current_step (trk (snd rw)))
       (run_updates (map (Pair None) nows) \<lparr>trk = init tot desc t0, stdout = out\<rparr>)
     = map int [1..<Suc (length nows)]"
    by (simp add: run_updates_increment init_def del: upt_Suc)
next
  define w0 where "w0 = \<lparr>trk = init 4 desc t0, stdout = out\<rparr>"
  from update_in_range_renders[of w0 None t1] obtain l1 where
    u1: "update None t1 w0 = (Inr (), \<lparr>trk = (init 4 desc t0)\<lparr>current_step := 1\<rparr>,
                    stdout = out @ [Write l1, Flush]\<rparr>)"
    by (auto simp: w0_def init_def step_to_def)
  define w1 where "w1 = \<lparr>trk = (init 4 desc t0)\<lparr>current_step := 1\<rparr>, stdout = out @ [Write l1, Flush]\<rparr>"
  from update_in_range_renders[of w1 None t2] obtain l2 where
    u2: "update None t2 w1 = (Inr (), \<lparr>trk = (init 4 desc t0)\<lparr>current_step := 2\<rparr>,
                    stdout = out @ [Write l1, Flush, Write l2, Flush]\<rparr>)"
    by (auto simp: w1_def init_def step_to_def)
  define w2 where "w2 = \<lparr>trk = (init 4 desc t0)\<lparr>current_step := 2\<rparr>,
                    stdout = out @ [Write l1, Flush, Write l2, Flush]\<rparr>"
  from update_in_range_renders[of w2 None t3] obtain l3 where
    u3: "update None t3 w2 = (Inr (), \<lparr>trk = (init 4 desc t0)\<lparr>current_step := 3\<rparr>,
                    stdout = out @ [Write l1, Flush, Write l2, Flush, Write l3, Flush]\<rparr>)"
    by (auto simp: w2_def init_def step_to_def)
  define w3 where "w3 = \<lparr>trk = (init 4 desc t0)\<lparr>current_step := 3\<rparr>,
                    stdout = out @ [Write l1, Flush, Write l2, Flush, Write l3, Flush]\<rparr>"
  from update_in_range_renders[of w3 None t4] obtain l4 where
    u4: "update None t4 w3 = (Inr (), \<lparr>trk = (init 4 desc t0)\<lparr>current_step := 4\<rparr>,
                    stdout = out @ [Write l1, Flush, Write l2, Flush, Write l3, Flush,
                                    Write l4, Flush, Write [LF]]\<rparr>)"
    by (auto simp: w3_def init_def step_to_def)
  have "run_updates [(None, t1), (None, t2), (None, t3), (None, t4)] w0 =
        [(Inr (), \<lparr>trk = (init 4 desc t0)\<lparr>current_step := 1\<rparr>,
                    stdout = out @ [Write l1, Flush]\<rparr>),
         (Inr (), \<lparr>trk = (init 4 desc t0)\<lparr>current_step := 2\<rparr>,
                    stdout = out @ [Write l1, Flush, Write l2, Flush]\<rparr>),
         (Inr (), \<lparr>trk = (init 4 desc t0)\<lparr>current_step := 3\<rparr>,
                    stdout = out @ [Write l1, Flush, Write l2, Flush, Write l3, Flush]\<rparr>),
         (Inr (), \<lparr>trk = (init 4 desc t0)\<lparr>current_step := 4\<rparr>,
                    stdout = out @ [Write l1, Flush, Write l2, Flush, Write l3, Flush,
                                    Write l4, Flush, Write [LF]]\<rparr>)]"
    using u1 u2[unfolded w1_def] u3[unfolded w2_def] u4[unfolded w3_def] by (simp add: Let_def)
  then show "\<exists>l1 l2 l3 l4.
      run_updates [(None, t1), (None, t2), (None, t3), (None, t4)]
                  \<lparr>trk = init 4 desc t0, stdout = out\<rparr> =
        [(Inr (), \<lparr>trk = (init 4 desc t0)\<lparr>current_step := 1\<rparr>,
                    stdout = out @ [Write l1, Flush]\<rparr>),
         (Inr (), \<lparr>trk = (init 4 desc t0)\<lparr>current_step := 2\<rparr>,
                    stdout = out @ [Write l1, Flush, Write l2, Flush]\<rparr>),
         (Inr (), \<lparr>trk = (init 4 desc t0)\<lparr>current_step := 3\<rparr>,
                    stdout = out @ [Write l1, Flush, Write l2, Flush, Write l3, Flush]\<rparr>),
         (Inr (), \<lparr>trk = (init 4 desc t0)\<lparr>current_step := 4\<rparr>,
                    stdout = out @ [Write l1, Flush, Write l2, Flush, Write l3, Flush,
                                    Write l4, Flush, Write [LF]]\<rparr>)]"
    unfolding w0_def by blast
qed


theorem updates_count_witness:
  "map (\<lambda>rw. current_step (trk (snd rw)))
       (run_updates (map (Pair None) [Finite False 1, Finite False 2, Finite False 3])
          \<lparr>trk = init 7 (ascii ''Progress'') (Finite False 0), stdout = []\<rparr>)
     = [1, 2, 3]"
  using updates_count[of "[Finite False 1, Finite False 2, Finite False 3]" 7
          "ascii ''Progress''" "Finite False 0" "[]"]
  by (simp add: upt_conv_Cons del: upt_Suc)

section \<open>The scoped helper on exit\<close>

lemma track_progress_finalizes:
  assumes "body \<lparr>trk = init tot desc t_enter, stdout = out\<rparr> = (r, w)"
    and "current_step (trk w) < total_steps (trk w)"
  shows "snd (track_progress tot desc t_enter t_exit body out)
         = snd (update (Some (total_steps (trk w))) t_exit w)"
    and "fst (update (Some (total_steps (trk w))) t_exit w) = Inr () \<Longrightarrow>
         fst (track_progress tot desc t_enter t_exit body out) = map_sum Propagated id r"
    and "fst (update (Some (total_steps (trk w))) t_exit w) = Inl x \<Longrightarrow>
         fst (track_progress tot desc t_enter t_exit body out) = Inl (Finalizer x)"
  using assms
  by (auto simp: track_progress_def Let_def split: prod.splits sum.splits)

lemma track_progress_done:
  assumes "body \<lparr>trk = init tot desc t_enter, stdout = out\<rparr> = (r, w)"
    and "total_steps (trk w) \<le> current_step (trk w)"
  shows "track_progress tot desc t_enter t_exit body out = (map_sum Propagated id r, w)"
  using assms by (simp add: track_progress_def Let_def)

lemma forced_update_returns:
  assumes "of_int \<bar>total_steps (trk w)\<bar> \<le> DBL_MAX"
  shows "fst (update (Some (total_steps (trk w))) now w) = Inr ()"
proof (cases "total_steps (trk w) = 0")
  case True
  then show ?thesis by (simp add: update_zero)
next
  case False
  from update_to_total[OF False assms, of now] show ?thesis by auto
qed

text \<open>
  C9. When the block of \<open>with track_progress(...)\<close> exits normally with
  \<open>current_step < total_steps\<close>, the helper makes one call
  \<open>update(total_steps)\<close> on the state the block left: the world after the scope is the
  world after that one call, and the scope returns the block's value when the call
  returns, which it does for every \<open>total_steps\<close> up to the largest finite float in
  magnitude. When the block exits with \<open>current_step >= total_steps\<close>, the helper makes
  no call: the scope returns the block's value in the world the block left.
\<close>

theorem finalization_on_return:
  assumes "body \<lparr>trk = init tot desc t_enter, stdout = out\<rparr> = (Inr v, w)"
  shows "(current_step (trk w) < total_steps (trk w) \<longrightarrow>
            snd (track_progress tot desc t_enter t_exit body out)
              = snd (update (Some (total_steps (trk w))) t_exit w) \<and>
            (fst (update (Some (total_steps (trk w))) t_exit w) = Inr () \<longrightarrow>
               fst (track_progress tot desc t_enter t_exit body out) = Inr v) \<and>
            (of_int \<bar>total_steps (trk w)\<bar> \<le> DBL_MAX \<longrightarrow>
               fst (track_progress tot desc t_enter t_exit body out) = Inr v)) \<and>
         (total_steps (trk w) \<le> current_step (trk w) \<longrightarrow>
            track_progress tot desc t_enter t_exit body out = (Inr v, w))"
proof (intro conjI impI)
  assume lt: "current_step (trk w) < total_steps (trk w)"
  show "snd (track_progress tot desc t_enter t_exit body out)
          = snd (update (Some (total_steps (trk w))) t_exit w)"
    by (rule track_progress_finalizes(1)[where body = body, OF assms lt])
  show "fst (track_progress tot desc t_enter t_exit body out) = Inr v"
    if "fst (update (Some (total_steps (trk w))) t_exit w) = Inr ()"
    using track_progress_finalizes(2)[where body = body, OF assms lt that] by simp
  show "fst (track_progress tot desc t_enter t_exit body out) = Inr v"
    if "of_int \<bar>total_steps (trk w)\<bar> \<le> DBL_MAX"
    using track_progress_finalizes(2)[where body = body, OF assms lt forced_update_returns[OF that]] by simp
next
  assume "total_steps (trk w) \<le> current_step (trk w)"
  from track_progress_done[where body = body, OF assms this] show
    "track_progress tot desc t_enter t_exit body out = (Inr v, w)" by simp
qed

theorem finalization_on_return_witness:
  "(\<exists>l1 l2.
      track_progress 3 (ascii ''Progress'') (Finite False 0) (Finite False 2) returning_body []
        = (Inr (), \<lparr>trk = \<lparr>total_steps = 3, current_step = 3, description = ascii ''Progress'',
                            start_time = Finite False 0\<rparr>,
                     stdout = [Write l1, Flush, Write l2, Flush, Write [LF]]\<rparr>)) \<and>
   (\<exists>l1.
      track_progress 1 (ascii ''Progress'') (Finite False 0) (Finite False 2) returning_body []
        = (Inr (), \<lparr>trk = \<lparr>total_steps = 1, current_step = 1, description = ascii ''Progress'',
                            start_time = Finite False 0\<rparr>,
                     stdout = [Write l1, Flush, Write [LF]]\<rparr>))"
proof -
  define w3 where "w3 = \<lparr>trk = init 3 (ascii ''Progress'') (Finite False 0), stdout = []\<rparr>"
  define w1 where "w1 = \<lparr>trk = init 1 (ascii ''Progress'') (Finite False 0), stdout = []\<rparr>"
  from update_in_range_renders[of w3 None "Finite False 1"] obtain l1 where
    u3: "update None (Finite False 1) w3 =
          (Inr (), \<lparr>trk = \<lparr>total_steps = 3, current_step = 1, description = ascii ''Progress'',
                            start_time = Finite False 0\<rparr>, stdout = [Write l1, Flush]\<rparr>)"
    by (auto simp: w3_def init_def step_to_def)
  define v3 where "v3 = \<lparr>trk = \<lparr>total_steps = 3, current_step = 1, description = ascii ''Progress'',
                            start_time = Finite False 0\<rparr>, stdout = [Write l1, Flush]\<rparr>"
  have b3: "returning_body w3 = (Inr (), v3)" by (simp add: returning_body_def u3 v3_def)
  from update_in_range_renders[of v3 "Some 3" "Finite False 2"] obtain l2 where
    f3: "update (Some 3) (Finite False 2) v3 =
          (Inr (), \<lparr>trk = \<lparr>total_steps = 3, current_step = 3, description = ascii ''Progress'',
                            start_time = Finite False 0\<rparr>,
                     stdout = [Write l1, Flush, Write l2, Flush, Write [LF]]\<rparr>)"
    by (auto simp: v3_def step_to_def)
  have sel3: "current_step (trk v3) = 1" "total_steps (trk v3) = 3" by (simp_all add: v3_def)
  from finalization_on_return[where body = returning_body and t_exit = "Finite False 2", OF b3[unfolded w3_def]] f3
  have part1: "track_progress 3 (ascii ''Progress'') (Finite False 0) (Finite False 2) returning_body []
        = (Inr (), \<lparr>trk = \<lparr>total_steps = 3, current_step = 3, description = ascii ''Progress'',
                            start_time = Finite False 0\<rparr>,
                     stdout = [Write l1, Flush, Write l2, Flush, Write [LF]]\<rparr>)"
    unfolding sel3 by (simp add: prod_eq_iff)
  from update_in_range_renders[of w1 None "Finite False 1"] obtain k1 where
    u1: "update None (Finite False 1) w1 =
          (Inr (), \<lparr>trk = \<lparr>total_steps = 1, current_step = 1, description = ascii ''Progress'',
                            start_time = Finite False 0\<rparr>, stdout = [Write k1, Flush, Write [LF]]\<rparr>)"
    by (auto simp: w1_def init_def step_to_def)
  define v1 where "v1 = \<lparr>trk = \<lparr>total_steps = 1, current_step = 1, description = ascii ''Progress'',
                            start_time = Finite False 0\<rparr>, stdout = [Write k1, Flush, Write [LF]]\<rparr>"
  have b1: "returning_body w1 = (Inr (), v1)" by (simp add: returning_body_def u1 v1_def)
  have sel1: "current_step (trk v1) = 1" "total_steps (trk v1) = 1" by (simp_all add: v1_def)
  from finalization_on_return[where body = returning_body and t_exit = "Finite False 2", OF b1[unfolded w1_def]]
  have part2: "track_progress 1 (ascii ''Progress'') (Finite False 0) (Finite False 2) returning_body []
        = (Inr (), \<lparr>trk = \<lparr>total_steps = 1, current_step = 1, description = ascii ''Progress'',
                            start_time = Finite False 0\<rparr>,
                     stdout = [Write k1, Flush, Write [LF]]\<rparr>)"
    unfolding sel1 by (simp add: v1_def)
  from part1 part2 show ?thesis by blast
qed

lemma line_overflow_total:
  assumes "2 ^ 1024 \<le> total_steps t" and "current_step t = total_steps t"
  shows "line now t = Inl OverflowError"
proof -
  have nz: "total_steps t \<noteq> 0" and pos: "0 < current_step t" using assms by simp_all
  have "2 ^ 1024 \<le> \<bar>current_step t\<bar>" using assms by simp
  from float_of_int_overflow[OF this]
  have "eta_str (float_sub now (start_time t)) t = Inl OverflowError"
    using pos by (simp add: eta_str_def float_truediv_int_def)
  then show ?thesis using percent_complete[OF nz assms(2)] by (simp add: line_def)
qed

text \<open>
  C1, as it stands, fails on two inputs. With \<open>total_steps = 2 ^ 1024\<close> and a block that
  raises at once, the forced \<open>update(total_steps)\<close> raises \<open>OverflowError\<close> (the integer
  does not convert to a float in \<open>elapsed / self.current_step\<close>), nothing is written, and
  that exception leaves the scope in place of the block's fault. With
  \<open>total_steps = 0\<close> and a block that calls \<open>update(step=-1)\<close> and raises, the forced
  update is made and the fault propagates, but no completion render is written.
\<close>

theorem finalization_on_fault_counterexample:
  "raise_at_once \<lparr>trk = init (2 ^ 1024) [] (Finite False 0), stdout = []\<rparr>
     = (Inl ''boom'', \<lparr>trk = init (2 ^ 1024) [] (Finite False 0), stdout = []\<rparr>) \<and>
   current_step (init (2 ^ 1024) [] (Finite False 0)) < total_steps (init (2 ^ 1024) [] (Finite False 0)) \<and>
   track_progress (2 ^ 1024) [] (Finite False 0) (Finite False 1) raise_at_once []
     = (Inl (Finalizer OverflowError),
        \<lparr>trk = (init (2 ^ 1024) [] (Finite False 0))\<lparr>current_step := 2 ^ 1024\<rparr>, stdout = []\<rparr>) \<and>
   track_progress 0 [] (Finite False 0) (Finite False 1) backward_raising_body []
     = (Inl (Propagated ''boom''), \<lparr>trk = init 0 [] (Finite False 0), stdout = []\<rparr>)"
proof -
  define w where "w = \<lparr>trk = init (2 ^ 1024) [] (Finite False 0), stdout = []\<rparr>"
  have sel: "total_steps (trk w) = 2 ^ 1024" "current_step (trk w) = 0" "stdout w = []"
    by (simp_all add: w_def init_def)
  have b: "raise_at_once \<lparr>trk = init (2 ^ 1024) [] (Finite False 0), stdout = []\<rparr> = (Inl ''boom'', w)"
    by (simp add: raise_at_once_def w_def)
  have lt: "current_step (trk w) < total_steps (trk w)" by (simp add: sel)
  have "line (Finite False 1) (step_to (Some (total_steps (trk w))) (trk w)) = Inl OverflowError"
    by (rule line_overflow_total) (simp_all add: sel)
  from update_raises[OF _ this]
  have u: "update (Some (total_steps (trk w))) (Finite False 1) w
           = (Inl OverflowError, w\<lparr>trk := step_to (Some (total_steps (trk w))) (trk w)\<rparr>)"
    by (simp add: sel)
  have one: "track_progress (2 ^ 1024) [] (Finite False 0) (Finite False 1) raise_at_once []
     = (Inl (Finalizer OverflowError),
        \<lparr>trk = (init (2 ^ 1024) [] (Finite False 0))\<lparr>current_step := 2 ^ 1024\<rparr>, stdout = []\<rparr>)"
    using track_progress_finalizes(1)[where body = raise_at_once and t_exit = "Finite False 1", OF b lt]
          track_progress_finalizes(3)[where body = raise_at_once and t_exit = "Finite False 1"
            and x = OverflowError, OF b lt] u
    by (simp add: prod_eq_iff w_def step_to_def init_def)
  define z where "z = \<lparr>trk = init 0 [] (Finite False 0), stdout = []\<rparr>"
  have bz: "backward_raising_body z = (Inl ''boom'', z\<lparr>trk := (trk z)\<lparr>current_step := - 1\<rparr>\<rparr>)"
    by (simp add: backward_raising_body_def update_zero z_def init_def step_to_def)
  have two: "track_progress 0 [] (Finite False 0) (Finite False 1) backward_raising_body []
     = (Inl (Propagated ''boom''), \<lparr>trk = init 0 [] (Finite False 0), stdout = []\<rparr>)"
    using bz by (simp add: track_progress_def z_def init_def update_zero step_to_def)
  from b lt one two show ?thesis by (simp add: w_def init_def)
qed

text \<open>
  C1, amended. When the block raises a fault while \<open>current_step < total_steps\<close>, the
  helper makes the call \<open>update(total_steps)\<close> on the state the block left, which sets
  \<open>current_step\<close> to \<open>total_steps\<close>. If \<open>total_steps\<close> is not zero and at most the
  largest finite float in magnitude, that call writes the completion render (a line, a
  flush, a line feed) and the block's fault leaves the scope unchanged. If
  \<open>total_steps\<close> is zero, nothing is written and the block's fault leaves the scope
  unchanged.
\<close>

theorem finalization_on_fault:
  assumes "body \<lparr>trk = init tot desc t_enter, stdout = out\<rparr> = (Inl e, w)"
    and "current_step (trk w) < total_steps (trk w)"
  shows "snd (track_progress tot desc t_enter t_exit body out)
           = snd (update (Some (total_steps (trk w))) t_exit w) \<and>
         trk (snd (track_progress tot desc t_enter t_exit body out))
           = (trk w)\<lparr>current_step := total_steps (trk w)\<rparr> \<and>
         (total_steps (trk w) \<noteq> 0 \<and> of_int \<bar>total_steps (trk w)\<bar> \<le> DBL_MAX \<longrightarrow>
            (\<exists>l. track_progress tot desc t_enter t_exit body out
                   = (Inl (Propagated e),
                      \<lparr>trk = (trk w)\<lparr>current_step := total_steps (trk w)\<rparr>,
                        stdout = stdout w @ [Write l, Flush, Write [LF]]\<rparr>))) \<and>
         (total_steps (trk w) = 0 \<longrightarrow>
            track_progress tot desc t_enter t_exit body out
              = (Inl (Propagated e), w\<lparr>trk := (trk w)\<lparr>current_step := 0\<rparr>\<rparr>))"
proof (intro conjI impI)
  show sn: "snd (track_progress tot desc t_enter t_exit body out)
           = snd (update (Some (total_steps (trk w))) t_exit w)"
    by (rule track_progress_finalizes(1)[where body = body, OF assms])
  show "trk (snd (track_progress tot desc t_enter t_exit body out))
           = (trk w)\<lparr>current_step := total_steps (trk w)\<rparr>"
    by (simp add: sn update_trk step_to_def)
next
  assume a: "total_steps (trk w) \<noteq> 0 \<and> of_int \<bar>total_steps (trk w)\<bar> \<le> DBL_MAX"
  from update_to_total[of w t_exit] a obtain l where
    u: "update (Some (total_steps (trk w))) t_exit w =
           (Inr (), \<lparr>trk = (trk w)\<lparr>current_step := total_steps (trk w)\<rparr>,
                     stdout = stdout w @ [Write l, Flush, Write [LF]]\<rparr>)"
    by blast
  from track_progress_finalizes(1,2)[where body = body and t_exit = t_exit, OF assms] u
  have "track_progress tot desc t_enter t_exit body out
                   = (Inl (Propagated e),
                      \<lparr>trk = (trk w)\<lparr>current_step := total_steps (trk w)\<rparr>,
                        stdout = stdout w @ [Write l, Flush, Write [LF]]\<rparr>)"
    by (simp add: prod_eq_iff)
  then show "\<exists>l. track_progress tot desc t_enter t_exit body out
                   = (Inl (Propagated e),
                      \<lparr>trk = (trk w)\<lparr>current_step := total_steps (trk w)\<rparr>,
                        stdout = stdout w @ [Write l, Flush, Write [LF]]\<rparr>)"
    by blast
next
  assume z: "total_steps (trk w) = 0"
  from track_progress_finalizes(1,2)[where body = body and t_exit = t_exit, OF assms] update_zero[OF z, of "Some 0" t_exit] z
  show "track_progress tot desc t_enter t_exit body out
              = (Inl (Propagated e), w\<lparr>trk := (trk w)\<lparr>current_step := 0\<rparr>\<rparr>)"
    by (simp add: prod_eq_iff step_to_def)
qed

theorem finalization_on_fault_witness:
  "\<exists>l1 l2.
      track_progress 3 (ascii ''Progress'') (Finite False 0) (Finite False 2) raising_body []
        = (Inl (Propagated ''boom''),
           \<lparr>trk = \<lparr>total_steps = 3, current_step = 3, description = ascii ''Progress'',
                    start_time = Finite False 0\<rparr>,
             stdout = [Write l1, Flush, Write l2, Flush, Write [LF]]\<rparr>)"
proof -
  define w3 where "w3 = \<lparr>trk = init 3 (ascii ''Progress'') (Finite False 0), stdout = []\<rparr>"
  from update_in_range_renders[of w3 None "Finite False 1"] obtain l1 where
    u3: "update None (Finite False 1) w3 =
          (Inr (), \<lparr>trk = \<lparr>total_steps = 3, current_step = 1, description = ascii ''Progress'',
                            start_time = Finite False 0\<rparr>, stdout = [Write l1, Flush]\<rparr>)"
    by (auto simp: w3_def init_def step_to_def)
  define v3 where "v3 = \<lparr>trk = \<lparr>total_steps = 3, current_step = 1, description = ascii ''Progress'',
                            start_time = Finite False 0\<rparr>, stdout = [Write l1, Flush]\<rparr>"
  have b3: "raising_body w3 = (Inl ''boom'', v3)" by (simp add: raising_body_def u3 v3_def)
  have sel3: "current_step (trk v3) = 1" "total_steps (trk v3) = 3" "stdout v3 = [Write l1, Flush]"
    "trk v3 = \<lparr>total_steps = 3, current_step = 1, description = ascii ''Progress'',
                            start_time = Finite False 0\<rparr>"
    by (simp_all add: v3_def)
  have lt: "current_step (trk v3) < total_steps (trk v3)" by (simp add: sel3)
  have rng: "total_steps (trk v3) \<noteq> 0 \<and> rat_of_int \<bar>total_steps (trk v3)\<bar> \<le> DBL_MAX"
    using of_int_le_DBL_MAX[of 3] by (simp add: sel3)
  from finalization_on_fault[where body = raising_body and t_exit = "Finite False 2", OF b3[unfolded w3_def] lt] rng
  obtain l2 where "track_progress 3 (ascii ''Progress'') (Finite False 0) (Finite False 2) raising_body []
                   = (Inl (Propagated ''boom''),
                      \<lparr>trk = (trk v3)\<lparr>current_step := total_steps (trk v3)\<rparr>,
                        stdout = stdout v3 @ [Write l2, Flush, Write [LF]]\<rparr>)"
    by blast
  then show ?thesis unfolding sel3 by auto
qed

section \<open>Calls that raise, calls that return\<close>





section \<open>The bar\<close>

lemma floor_divide_numeral_rat:
  "\<lfloor>numeral a / numeral b :: rat\<rfloor> = numeral a div numeral b"
  by (metis floor_divide_of_int_eq of_int_numeral)

lemma floor_minus_divide_numeral_rat:
  "\<lfloor>- (numeral a / numeral b) :: rat\<rfloor> = - numeral a div numeral b"
  by (metis divide_minus_left floor_divide_of_int_eq of_int_neg_numeral of_int_numeral)

lemma filled_negative_example:
  "filled \<lparr>total_steps = 7, current_step = - 1, description = [], start_time = Finite False 0\<rparr>
   = Inr (- 4)"
proof -
  have "rat_of_int \<bar>- 30\<bar> \<le> DBL_MAX" by (rule of_int_le_DBL_MAX) simp
  from int_truediv_in_range[OF _ this, of 7]
  have "int_truediv (- 30) 7 = Inr (Finite True (nearest_double (of_int 30 / of_int 7)))" by simp
  moreover have "\<lfloor>nearest_double (of_int 30 / of_int 7)\<rfloor> = 30 div 7"
    by (rule floor_nearest_double) simp_all
  ultimately show ?thesis by (simp add: filled_def bar_length_def)
qed

lemma filled_rounded_example:
  "filled \<lparr>total_steps = 10 ^ 17, current_step = 10 ^ 17 - 1, description = [],
           start_time = Finite False 0\<rparr> = Inr 30"
proof -
  define x :: rat where "x = 2999999999999999970 / 100000000000000000"
  have e: "ilog2 x = 4" by (rule ilog2_eq) (simp_all add: x_def)
  then have p: "ulp_exp x = - 48" by (simp add: ulp_exp_def)
  have r: "round_half_even (x / 2 powi (- 48)) = 30 * 2 ^ 48"
    by (rule round_half_even_near) (simp add: x_def power_int_minus)
  have x0: "x \<noteq> 0" by (simp add: x_def)
  have "nearest_double x = of_int (round_half_even (x / 2 powi ulp_exp x)) * 2 powi ulp_exp x"
    by (rule nearest_double_eq[OF x0])
  also have "\<dots> = of_int (30 * 2 ^ 48) * 2 powi (- 48)" by (simp only: p r)
  also have "\<dots> = 30" by (simp add: power_int_minus)
  finally have n: "nearest_double x = 30" .
  have "rat_of_int \<bar>2999999999999999970\<bar> \<le> DBL_MAX" by (rule of_int_le_DBL_MAX) simp
  from int_truediv_in_range[OF _ this, of 100000000000000000]
  have "int_truediv 2999999999999999970 100000000000000000 = Inr (Finite False (nearest_double x))"
    by (simp add: x_def)
  then show ?thesis using n by (simp add: filled_def bar_length_def)
qed

text \<open>
  C3, as it stands, fails outside \<open>0 .. total_steps\<close> and for very large totals. With
  \<open>total_steps = 10\<close> and \<open>current_step = 20\<close> the bar is 60 filled glyphs: its width is
  60, not 30. With \<open>total_steps = 7\<close> and \<open>current_step = -1\<close> the count is
  \<open>int(-30 / 7) = -4\<close> (truncation toward zero) while the floor is \<open>-5\<close>, and the bar is
  34 empty glyphs. With \<open>total_steps = 10 ^ 17\<close> and \<open>current_step = 10 ^ 17 - 1\<close> the
  float quotient rounds to \<open>30.0\<close>, so the count is 30 while the floor is 29.
\<close>

theorem bar_width_counterexample:
  "filled \<lparr>total_steps = 10, current_step = 20, description = [], start_time = Finite False 0\<rparr>
     = Inr 60 \<and>
   bar 60 = Inr (replicate 60 FULL_BLOCK) \<and>
   length (replicate 60 FULL_BLOCK) = 60 \<and>
   filled \<lparr>total_steps = 7, current_step = - 1, description = [], start_time = Finite False 0\<rparr>
     = Inr (- 4) \<and>
   \<lfloor>30 * rat_of_int (- 1) / rat_of_int 7\<rfloor> = - 5 \<and>
   bar (- 4) = Inr (replicate 34 LIGHT_SHADE) \<and>
   filled \<lparr>total_steps = 10 ^ 17, current_step = 10 ^ 17 - 1, description = [],
           start_time = Finite False 0\<rparr> = Inr 30 \<and>
   \<lfloor>30 * rat_of_int (10 ^ 17 - 1) / rat_of_int (10 ^ 17)\<rfloor> = 29"
proof -
  have "int_truediv 600 10 = Inr (Finite False 60)"
    using int_truediv_exact[of 10 600 60] by simp
  then have a: "filled \<lparr>total_steps = 10, current_step = 20, description = [],
                        start_time = Finite False 0\<rparr> = Inr 60"
    by (simp add: filled_def bar_length_def)
  have b: "bar 60 = Inr (replicate 60 FULL_BLOCK)"
    using bar_in_range[of 60] by (simp add: bar_length_def)
  have c: "bar (- 4) = Inr (replicate 34 LIGHT_SHADE)"
    using bar_in_range[of "- 4"] by (simp add: bar_length_def)
  have d: "\<lfloor>30 * rat_of_int (- 1) / rat_of_int 7\<rfloor> = - 5"
    by (simp add: floor_minus_divide_numeral_rat)
  have e: "\<lfloor>30 * rat_of_int (10 ^ 17 - 1) / rat_of_int (10 ^ 17)\<rfloor> = 29"
    by (simp add: floor_divide_numeral_rat)
  from a b c d e filled_negative_example filled_rounded_example show ?thesis by simp
qed

text \<open>
  C3, amended. For a tracker with \<open>0 < total_steps <= 2 ^ 48\<close> and
  \<open>0 <= current_step <= total_steps\<close>, the fill count is
  \<open>floor(30 * current_step / total_steps)\<close> and the bar is a 30-character string: that
  many filled glyphs, then empty glyphs; with \<open>total_steps = 10\<close> and
  \<open>current_step = 5\<close> it has 15 filled glyphs of 30. For any other \<open>current_step\<close>
  nothing is clamped: whenever the count \<open>n\<close> and the bar are computed, the bar is
  \<open>max n 0\<close> filled glyphs followed by \<open>max (30 - n) 0\<close> empty ones.
\<close>

theorem bar_fill_count:
  "(0 < total_steps t \<and> total_steps t \<le> 2 ^ 48 \<and>
    0 \<le> current_step t \<and> current_step t \<le> total_steps t \<longrightarrow>
      (\<exists>n b. n = \<lfloor>30 * rat_of_int (current_step t) / rat_of_int (total_steps t)\<rfloor> \<and>
         filled t = Inr n \<and> bar n = Inr b \<and> length b = 30 \<and>
         b = replicate (nat n) FULL_BLOCK @ replicate (30 - nat n) LIGHT_SHADE \<and>
         length (filter (\<lambda>c. c = FULL_BLOCK) b) = nat n)) \<and>
   (filled t = Inr m \<and> bar m = Inr b' \<longrightarrow>
      b' = replicate (nat m) FULL_BLOCK @ replicate (nat (30 - m)) LIGHT_SHADE) \<and>
   filled \<lparr>total_steps = 10, current_step = 5, description = d, start_time = s\<rparr> = Inr 15"
proof (intro conjI impI)
  assume a: "0 < total_steps t \<and> total_steps t \<le> 2 ^ 48 \<and>
    0 \<le> current_step t \<and> current_step t \<le> total_steps t"
  define n where "n = (30 * current_step t) div total_steps t"
  have n_floor: "n = \<lfloor>30 * rat_of_int (current_step t) / rat_of_int (total_steps t)\<rfloor>"
    using floor_divide_of_int_eq[of "30 * current_step t" "total_steps t", where ?'a = rat]
    by (simp add: n_def)
  have f: "filled t = Inr n" using filled_floor[of t] a by (simp add: n_def)
  have n0: "0 \<le> n" using a by (simp add: n_def pos_imp_zdiv_nonneg_iff)
  have "30 * current_step t \<le> 30 * total_steps t" using a by simp
  then have "(30 * current_step t) div total_steps t \<le> (30 * total_steps t) div total_steps t"
    by (rule zdiv_mono1) (use a in simp)
  then have n30: "n \<le> 30" using a by (simp add: n_def)
  define b where "b = replicate (nat n) FULL_BLOCK @ replicate (30 - nat n) LIGHT_SHADE"
  have "nat (30 - n) = 30 - nat n" using n0 by simp
  then have bar: "bar n = Inr b" using bar_of_floor[OF n0 n30] by (simp add: b_def)
  have len: "length b = 30" using n0 n30 by (simp add: b_def)
  have cnt: "length (filter (\<lambda>c. c = FULL_BLOCK) b) = nat n"
    by (simp add: b_def FULL_BLOCK_def LIGHT_SHADE_def)
  from n_floor f bar len cnt b_def
  show "\<exists>n b. n = \<lfloor>30 * rat_of_int (current_step t) / rat_of_int (total_steps t)\<rfloor> \<and>
         filled t = Inr n \<and> bar n = Inr b \<and> length b = 30 \<and>
         b = replicate (nat n) FULL_BLOCK @ replicate (30 - nat n) LIGHT_SHADE \<and>
         length (filter (\<lambda>c. c = FULL_BLOCK) b) = nat n"
    by blast
next
  assume "filled t = Inr m \<and> bar m = Inr b'"
  then show "b' = replicate (nat m) FULL_BLOCK @ replicate (nat (30 - m)) LIGHT_SHADE"
    using bar_shape[of m b'] by (simp add: bar_length_def)
next
  show "filled \<lparr>total_steps = 10, current_step = 5, description = d, start_time = s\<rparr> = Inr 15"
    using filled_floor[of "\<lparr>total_steps = 10, current_step = 5, description = d, start_time = s\<rparr>"]
    by simp
qed

theorem bar_fill_count_witness:
  "\<exists>b. filled \<lparr>total_steps = 4, current_step = 3, description = [], start_time = Finite False 0\<rparr>
          = Inr 22 \<and>
       bar 22 = Inr b \<and> length b = 30 \<and>
       b = replicate 22 FULL_BLOCK @ replicate 8 LIGHT_SHADE"
proof -
  have "\<lfloor>30 * rat_of_int 3 / rat_of_int 4\<rfloor> = 22" by (simp add: floor_divide_numeral_rat)
  with bar_fill_count[of "\<lparr>total_steps = 4, current_step = 3, description = [],
                           start_time = Finite False 0\<rparr>"]
  show ?thesis by auto
qed

end
